theory Spec2Isabelle
  imports Complex_Main "HOL-Library.Multiset"
begin

section \<open>Data model\<close>

text \<open>
  The cell states of \<^verbatim>\<open>class CellType(Enum)\<close>, in the order of the source.
\<close>

datatype CellType =
  EMPTY | WALL | START | TARGET | FRONTIER | EXPLORED | PATH | DYNAMIC_OBSTACLE

text \<open>
  \<^verbatim>\<open>class Node\<close>: a position, an accumulated cost and a parent reference. Nodes are
  never mutated after construction, so the parent reference is a value. The costs
  \<^verbatim>\<open>1.0\<close> and \<^verbatim>\<open>1.4\<close> are modelled as the exact rationals \<open>1\<close> and \<open>14/10\<close>.
\<close>

datatype Node =
  Node (node_x: int) (node_y: int) (node_cost: rat) (node_parent: "Node option")

definition node_pos :: "Node \<Rightarrow> int \<times> int" where
  "node_pos n = (node_x n, node_y n)"

text \<open>\<^verbatim>\<open>Node.__lt__\<close>: nodes are ordered by cost alone.\<close>

definition node_lt :: "Node \<Rightarrow> Node \<Rightarrow> bool" where
  "node_lt a b \<longleftrightarrow> node_cost a < node_cost b"

text \<open>
  The events \<^verbatim>\<open>handle_events_during_search\<close> tells apart: a window close, a press of the
  space bar, and anything else.
\<close>

datatype event = QUIT | KEYDOWN_SPACE | OTHER_EVENT

text \<open>The lines the program prints, kept structured.\<close>

datatype message =
  ObstacleAdded int int
| Running string
| IddfsDepth int
| ResultLine string string

text \<open>
  The fields of \<^verbatim>\<open>GOODPERFORMANCETIMEAPPathfinder\<close> that the search engine reads or
  writes, followed by the environment made explicit: the results of successive calls of
  \<^verbatim>\<open>random.random()\<close> and \<^verbatim>\<open>random.choice\<close> (\<open>random_random\<close>, \<open>random_choice\<close>, read
  at the call counter \<open>rng_calls\<close>), the batches that successive calls of
  \<^verbatim>\<open>pygame.event.get()\<close> will return (\<open>event_queue\<close>; an exhausted queue returns no
  events), the grids shown by successive calls of \<^verbatim>\<open>draw\<close> (\<open>frames\<close>) and the printed
  lines (\<open>printed\<close>).
\<close>

record pathfinder =
  grid_size :: int
  rows :: int
  cols :: int
  grid :: "CellType list list"
  start :: "int \<times> int"
  target :: "int \<times> int"
  current_algorithm :: string
  is_searching :: bool
  search_complete :: bool
  paused :: bool
  current_mode :: string
  dynamic_obstacle_probability :: rat
  enable_dynamic_obstacles :: bool
  dynamic_obstacles_added :: "(int \<times> int) list"
  random_random :: "nat \<Rightarrow> rat"
  random_choice :: "nat \<Rightarrow> nat"
  rng_calls :: nat
  event_queue :: "event list list"
  frames :: "CellType list list list"
  printed :: "message list"

text \<open>
  \<^verbatim>\<open>self.grid[row][col]\<close> and \<^verbatim>\<open>self.grid[row][col] = v\<close>. Every access of the source
  is made at a position inside \<open>[0, rows) \<times> [0, cols)\<close> of a grid of exactly that shape
  (\<open>wf_grid\<close> below), where the list operations of HOL agree with Python's.
\<close>

definition cell :: "pathfinder \<Rightarrow> int \<Rightarrow> int \<Rightarrow> CellType" where
  "cell s row col = grid s ! nat row ! nat col"

definition set_cell :: "pathfinder \<Rightarrow> int \<Rightarrow> int \<Rightarrow> CellType \<Rightarrow> pathfinder" where
  "set_cell s row col v =
     s\<lparr>grid := (grid s)[nat row := (grid s ! nat row)[nat col := v]]\<rparr>"

definition in_grid :: "pathfinder \<Rightarrow> int \<times> int \<Rightarrow> bool" where
  "in_grid s p \<longleftrightarrow> 0 \<le> fst p \<and> fst p < rows s \<and> 0 \<le> snd p \<and> snd p < cols s"

text \<open>
  The shape \<^verbatim>\<open>__init__\<close> establishes and nothing changes: \<open>rows\<close> rows of \<open>cols\<close>
  cells, with the start and the target inside the grid.
\<close>

definition wf_grid :: "pathfinder \<Rightarrow> bool" where
  "wf_grid s \<longleftrightarrow>
     int (length (grid s)) = rows s \<and>
     list_all (\<lambda>r. int (length r) = cols s) (grid s) \<and>
     in_grid s (start s) \<and> in_grid s (target s)"

text \<open>
  \<^verbatim>\<open>self.directions\<close>: up, right, down, down-right, left, up-left, up-right,
  down-left.
\<close>

definition directions :: "(int \<times> int) list" where
  "directions = [(-1, 0), (0, 1), (1, 0), (1, 1), (0, -1), (-1, -1), (-1, 1), (1, -1)]"

section \<open>Grid operations\<close>

definition is_valid_position :: "pathfinder \<Rightarrow> int \<Rightarrow> int \<Rightarrow> bool" where
  "is_valid_position s row col \<longleftrightarrow>
     0 \<le> row \<and> row < rows s \<and> 0 \<le> col \<and> col < cols s \<and>
     cell s row col \<noteq> WALL \<and> cell s row col \<noteq> DYNAMIC_OBSTACLE"

definition step_cost :: "int \<times> int \<Rightarrow> rat" where
  "step_cost d = (if \<bar>fst d\<bar> + \<bar>snd d\<bar> = 2 then 14 / 10 else 1)"

definition get_neighbors :: "pathfinder \<Rightarrow> Node \<Rightarrow> Node list" where
  "get_neighbors s node =
     concat (map (\<lambda>(dr, dc).
       let new_row = node_x node + dr; new_col = node_y node + dc in
       if is_valid_position s new_row new_col
       then [Node new_row new_col (node_cost node + step_cost (dr, dc)) (Some node)]
       else []) directions)"

text \<open>The positions of the grid in the order of the nested \<^verbatim>\<open>range\<close> loops.\<close>

definition all_positions :: "pathfinder \<Rightarrow> (int \<times> int) list" where
  "all_positions s = concat (map (\<lambda>row. map (\<lambda>col. (row, col)) [0..cols s - 1]) [0..rows s - 1])"

text \<open>
  \<^verbatim>\<open>add_dynamic_obstacle\<close>. One call of \<^verbatim>\<open>random.random()\<close> is made when dynamic
  obstacles are enabled, and one of \<^verbatim>\<open>random.choice\<close> when the draw is below the
  probability and an empty cell exists; \<^verbatim>\<open>random.choice\<close> returns some element of the
  list, here the one at the drawn index modulo the length.
\<close>

definition add_dynamic_obstacle :: "pathfinder \<Rightarrow> bool \<times> pathfinder" where
  "add_dynamic_obstacle s =
     (if \<not> enable_dynamic_obstacles s then (False, s)
      else
        let draw = random_random s (rng_calls s);
            s1 = s\<lparr>rng_calls := rng_calls s + 1\<rparr> in
        if draw < dynamic_obstacle_probability s1 then
          let empty_cells = filter (\<lambda>(row, col). cell s1 row col = EMPTY) (all_positions s1) in
          if empty_cells \<noteq> [] then
            let (row, col) = empty_cells ! (random_choice s1 (rng_calls s1) mod length empty_cells);
                s2 = s1\<lparr>rng_calls := rng_calls s1 + 1\<rparr>;
                s3 = set_cell s2 row col DYNAMIC_OBSTACLE;
                s4 = s3\<lparr>dynamic_obstacles_added := dynamic_obstacles_added s3 @ [(row, col)]\<rparr>;
                s5 = s4\<lparr>printed := printed s4 @ [ObstacleAdded row col]\<rparr>
            in (True, s5)
          else (False, s1)
        else (False, s1))"

text \<open>\<^verbatim>\<open>clear_search_visualization\<close>; a pair is truthy, so both markers are rewritten.\<close>

definition clear_search_visualization :: "pathfinder \<Rightarrow> pathfinder" where
  "clear_search_visualization s =
     (let s1 = fold (\<lambda>(row, col) t.
                  if cell t row col = FRONTIER \<or> cell t row col = EXPLORED \<or> cell t row col = PATH
                  then set_cell t row col EMPTY else t) (all_positions s) s;
          s2 = set_cell s1 (fst (start s1)) (snd (start s1)) START;
          s3 = set_cell s2 (fst (target s2)) (snd (target s2)) TARGET
      in s3)"

definition clear_all :: "pathfinder \<Rightarrow> pathfinder" where
  "clear_all s =
     (let s1 = fold (\<lambda>(row, col) t.
                  if cell t row col \<noteq> START \<and> cell t row col \<noteq> TARGET
                  then set_cell t row col EMPTY else t) (all_positions s) s
      in s1\<lparr>dynamic_obstacles_added := []\<rparr>)"

text \<open>
  \<^verbatim>\<open>handle_grid_click\<close>, on the pixel position \<open>(px, py)\<close>. There is no test of the
  clicked cell's state in the START and TARGET modes.
\<close>

definition grid_height :: "pathfinder \<Rightarrow> int" where
  "grid_height s = rows s * grid_size s"

definition handle_grid_click :: "pathfinder \<Rightarrow> int \<times> int \<Rightarrow> pathfinder" where
  "handle_grid_click s pos =
     (if snd pos > grid_height s then s
      else
        let col = fst pos div grid_size s;
            row = snd pos div grid_size s in
        if 0 \<le> row \<and> row < rows s \<and> 0 \<le> col \<and> col < cols s then
          if current_mode s = ''START'' then
            let s1 = set_cell s (fst (start s)) (snd (start s)) EMPTY;
                s2 = s1\<lparr>start := (row, col)\<rparr>
            in set_cell s2 row col START
          else if current_mode s = ''TARGET'' then
            let s1 = set_cell s (fst (target s)) (snd (target s)) EMPTY;
                s2 = s1\<lparr>target := (row, col)\<rparr>
            in set_cell s2 row col TARGET
          else if current_mode s = ''WALL'' then
            if cell s row col = EMPTY then set_cell s row col WALL
            else if cell s row col = WALL then set_cell s row col EMPTY
            else s
          else s
        else s)"

section \<open>Basic facts about the grid\<close>

lemma cell_set_cell_same:
  "0 \<le> row \<Longrightarrow> row < int (length (grid s)) \<Longrightarrow> 0 \<le> col \<Longrightarrow>
   col < int (length (grid s ! nat row)) \<Longrightarrow> cell (set_cell s row col v) row col = v"
  by (simp add: cell_def set_cell_def)

lemma cell_set_cell_other:
  "0 \<le> row \<Longrightarrow> 0 \<le> col \<Longrightarrow> 0 \<le> r \<Longrightarrow> 0 \<le> c \<Longrightarrow> (r, c) \<noteq> (row, col) \<Longrightarrow>
   cell (set_cell s row col v) r c = cell s r c"
proof (cases "nat row < length (grid s)")
  case True
  assume "0 \<le> row" "0 \<le> col" "0 \<le> r" "0 \<le> c" "(r, c) \<noteq> (row, col)"
  with True show ?thesis
    by (cases "nat r = nat row") (auto simp add: cell_def set_cell_def nth_list_update)
next
  case False
  then show ?thesis by (simp add: cell_def set_cell_def list_update_beyond)
qed


section \<open>Paths, frames and events\<close>

text \<open>
  \<^verbatim>\<open>reconstruct_path\<close>: the positions from the node back to the root of its parent
  links, reversed. A node object is truthy, so the loop stops at the missing parent.
\<close>

fun parent_chain :: "Node \<Rightarrow> (int \<times> int) list" where
  "parent_chain (Node x y c None) = [(x, y)]"
| "parent_chain (Node x y c (Some p)) = (x, y) # parent_chain p"

definition reconstruct_path :: "Node \<Rightarrow> (int \<times> int) list" where
  "reconstruct_path node = rev (parent_chain node)"

text \<open>\<^verbatim>\<open>draw\<close> shows the current grid.\<close>

definition draw :: "pathfinder \<Rightarrow> pathfinder" where
  "draw s = s\<lparr>frames := frames s @ [grid s]\<rparr>"

text \<open>\<^verbatim>\<open>visualize_path\<close>: one frame per cell of the path.\<close>

fun visualize_path :: "pathfinder \<Rightarrow> (int \<times> int) list \<Rightarrow> pathfinder" where
  "visualize_path s [] = s"
| "visualize_path s ((row, col) # rest) =
     visualize_path
       (draw (if (row, col) \<noteq> start s \<and> (row, col) \<noteq> target s
              then set_cell s row col PATH else s)) rest"

text \<open>
  \<^verbatim>\<open>handle_events_during_search\<close>: the events of one batch in order; a QUIT returns
  False at once, a space key toggles the pause flag.
\<close>

fun process_events :: "event list \<Rightarrow> pathfinder \<Rightarrow> bool \<times> pathfinder" where
  "process_events [] s = (True, s)"
| "process_events (e # es) s =
     (if e = QUIT then (False, s)
      else if e = KEYDOWN_SPACE then process_events es (s\<lparr>paused := \<not> paused s\<rparr>)
      else process_events es s)"

definition handle_events_during_search :: "pathfinder \<Rightarrow> bool \<times> pathfinder" where
  "handle_events_during_search s =
     (case event_queue s of
        [] \<Rightarrow> (True, s)
      | batch # later \<Rightarrow> process_events batch (s\<lparr>event_queue := later\<rparr>))"

text \<open>
  What a strategy returns: \<open>Found path\<close> stands for the return value \<^verbatim>\<open>True\<close>, reached
  after \<^verbatim>\<open>visualize_path(path)\<close>; \<open>NotFound\<close> stands for \<^verbatim>\<open>False\<close>.
\<close>

datatype outcome = Found "(int \<times> int) list" | NotFound

section \<open>Breadth-first search\<close>

text \<open>
  The loop over the neighbours of the current node, the same in BFS and DFS (which
  iterates over the reversed list): an unvisited, valid neighbour is marked visited,
  appended to the queue (the stack) and shown as frontier unless it is the target.
\<close>

fun discover_neighbors ::
  "Node list \<Rightarrow> Node list \<times> (int \<times> int) set \<times> pathfinder \<Rightarrow>
   Node list \<times> (int \<times> int) set \<times> pathfinder" where
  "discover_neighbors [] (queue, visited, s) = (queue, visited, s)"
| "discover_neighbors (neighbor # rest) (queue, visited, s) =
     (let pos = node_pos neighbor in
      if pos \<notin> visited \<and> is_valid_position s (node_x neighbor) (node_y neighbor)
      then discover_neighbors rest
             (queue @ [neighbor], insert pos visited,
              if pos \<noteq> target s then set_cell s (node_x neighbor) (node_y neighbor) FRONTIER
              else s)
      else discover_neighbors rest (queue, visited, s))"

text \<open>
  One pass through the body of the \<^verbatim>\<open>while\<close> loop: \<open>Inl\<close> when the body returns,
  \<open>Inr\<close> with the queue, the visited set and the state when the loop goes on.
\<close>

definition bfs_iteration ::
  "Node list \<Rightarrow> (int \<times> int) set \<Rightarrow> pathfinder \<Rightarrow>
   (outcome \<times> pathfinder) + (Node list \<times> (int \<times> int) set \<times> pathfinder)" where
  "bfs_iteration queue visited s =
     (let s1 = snd (add_dynamic_obstacle s);
          current = hd queue;
          queue1 = tl queue in
      if node_pos current = target s1 then
        let path = reconstruct_path current in
        Inl (Found path, visualize_path s1 path)
      else
        let s2 = (if node_pos current \<noteq> start s1
                  then set_cell s1 (node_x current) (node_y current) EXPLORED else s1);
            (queue2, visited2, s3) = discover_neighbors (get_neighbors s2 current) (queue1, visited, s2);
            s4 = draw s3;
            (ok, s5) = handle_events_during_search s4 in
        if \<not> ok then Inl (NotFound, s5)
        else Inr (queue2, visited2, s5))"


section \<open>What the primitive operations leave alone\<close>

text \<open>
  The configuration of a run: the shape of the grid, the two markers' positions and the
  dynamic-obstacle settings. No operation of a search writes any of them.
\<close>

definition config ::
  "pathfinder \<Rightarrow> int \<times> int \<times> (int \<times> int) \<times> (int \<times> int) \<times> bool \<times> rat" where
  "config s =
     (rows s, cols s, start s, target s, enable_dynamic_obstacles s,
      dynamic_obstacle_probability s)"

lemma config_eqD:
  "config a = config b \<Longrightarrow>
   rows a = rows b \<and> cols a = cols b \<and> start a = start b \<and> target a = target b \<and>
   enable_dynamic_obstacles a = enable_dynamic_obstacles b \<and>
   dynamic_obstacle_probability a = dynamic_obstacle_probability b"
  by (simp add: config_def)

lemma config_set_cell [simp]: "config (set_cell s row col v) = config s"
  by (simp add: config_def set_cell_def)

lemma config_draw [simp]: "config (draw s) = config s"
  by (simp add: config_def draw_def)

lemma config_add_dynamic_obstacle [simp]: "config (snd (add_dynamic_obstacle s)) = config s"
  by (simp add: add_dynamic_obstacle_def Let_def config_def set_cell_def split: prod.splits)

lemma config_visualize_path [simp]: "config (visualize_path s path) = config s"
  by (induction s path rule: visualize_path.induct) simp_all

lemma config_process_events: "config (snd (process_events es s)) = config s"
  by (induction es s rule: process_events.induct) (simp_all add: config_def)

lemma config_handle_events [simp]: "config (snd (handle_events_during_search s)) = config s"
proof (cases "event_queue s")
  case Nil
  then show ?thesis by (simp add: handle_events_during_search_def)
next
  case (Cons batch later)
  have "config (snd (process_events batch (s\<lparr>event_queue := later\<rparr>))) =
        config (s\<lparr>event_queue := later\<rparr>)"
    by (rule config_process_events)
  with Cons show ?thesis by (simp add: handle_events_during_search_def config_def)
qed

definition grid_cells :: "pathfinder \<Rightarrow> (int \<times> int) set" where
  "grid_cells s = {0..<rows s} \<times> {0..<cols s}"

lemma finite_grid_cells [simp]: "finite (grid_cells s)"
  by (simp add: grid_cells_def)

lemma grid_cells_config: "config a = config b \<Longrightarrow> grid_cells a = grid_cells b"
  by (simp add: grid_cells_def config_def)

lemma is_valid_position_in_cells:
  "is_valid_position s row col \<Longrightarrow> (row, col) \<in> grid_cells s"
  by (simp add: is_valid_position_def grid_cells_def)

lemma discover_neighbors_progress:
  "discover_neighbors nbs (queue, visited, s) = (queue', visited', s') \<Longrightarrow>
   config s' = config s \<and> visited \<subseteq> visited' \<and> visited' - visited \<subseteq> grid_cells s \<and>
   (visited' = visited \<longrightarrow> queue' = queue)"
proof (induction nbs arbitrary: queue visited s)
  case Nil
  then show ?case by simp
next
  case (Cons nb nbs)
  show ?case
  proof (cases "node_pos nb \<notin> visited \<and> is_valid_position s (node_x nb) (node_y nb)")
    case True
    let ?s1 = "if node_pos nb \<noteq> target s
               then set_cell s (node_x nb) (node_y nb) FRONTIER else s"
    from True Cons.prems
    have run: "discover_neighbors nbs (queue @ [nb], insert (node_pos nb) visited, ?s1) =
               (queue', visited', s')"
      by (simp add: Let_def)
    have c1: "config ?s1 = config s" by simp
    have g1: "grid_cells ?s1 = grid_cells s" by (rule grid_cells_config [OF c1])
    have in_cells: "node_pos nb \<in> grid_cells s"
      using True is_valid_position_in_cells [of s "node_x nb" "node_y nb"]
      by (simp add: node_pos_def)
    from Cons.IH [OF run]
    have ih: "config s' = config ?s1" "insert (node_pos nb) visited \<subseteq> visited'"
      "visited' - insert (node_pos nb) visited \<subseteq> grid_cells ?s1"
      by blast+
    have "config s' = config s" using ih(1) c1 by simp
    moreover have "visited \<subseteq> visited'" using ih(2) by blast
    moreover have "visited' - visited \<subseteq> grid_cells s"
      using ih(3) in_cells unfolding g1 by blast
    moreover have "visited' \<noteq> visited" using ih(2) True by blast
    ultimately show ?thesis by blast
  next
    case False
    with Cons.prems have "discover_neighbors nbs (queue, visited, s) = (queue', visited', s')"
      by (auto simp add: Let_def)
    from Cons.IH [OF this] show ?thesis .
  qed
qed


text \<open>
  The order in which a queue-based loop makes progress: an iteration either marks a
  new cell of the grid as visited or leaves the visited set alone and shortens the
  queue.
\<close>

definition search_order ::
  "((Node list \<times> (int \<times> int) set \<times> pathfinder) \<times>
    (Node list \<times> (int \<times> int) set \<times> pathfinder)) set" where
  "search_order =
     inv_image (less_than <*lex*> less_than)
       (\<lambda>(queue, visited, s). (card (grid_cells s - visited), length queue))"

lemma wf_search_order: "wf search_order"
  unfolding search_order_def by (intro wf_inv_image wf_lex_prod wf_less_than)

lemma search_order_step:
  assumes "config s' = config s" "visited \<subseteq> visited'"
    "visited' - visited \<subseteq> grid_cells s"
    "visited' = visited \<Longrightarrow> length queue' < length queue"
  shows "((queue', visited', s'), (queue, visited, s)) \<in> search_order"
proof (cases "visited' = visited")
  case True
  with assms show ?thesis
    by (simp add: search_order_def grid_cells_config [OF assms(1)])
next
  case False
  with assms(2,3) have "grid_cells s - visited' \<subset> grid_cells s - visited" by blast
  then have "card (grid_cells s - visited') < card (grid_cells s - visited)"
    by (intro psubset_card_mono) simp_all
  then show ?thesis
    by (simp add: search_order_def grid_cells_config [OF assms(1)])
qed

lemma bfs_iteration_progress:
  assumes "bfs_iteration queue visited s = Inr (queue', visited', s')" "queue \<noteq> []"
  shows "((queue', visited', s'), (queue, visited, s)) \<in> search_order"
proof -
  define s1 where "s1 = snd (add_dynamic_obstacle s)"
  define current where "current = hd queue"
  define s2 where "s2 = (if node_pos current \<noteq> start s1
    then set_cell s1 (node_x current) (node_y current) EXPLORED else s1)"
  obtain queue2 visited2 s3 where
    nb: "discover_neighbors (get_neighbors s2 current) (tl queue, visited, s2) = (queue2, visited2, s3)"
    by (cases "discover_neighbors (get_neighbors s2 current) (tl queue, visited, s2)") auto
  obtain ok s5 where ev: "handle_events_during_search (draw s3) = (ok, s5)"
    by (cases "handle_events_during_search (draw s3)") auto
  from assms(1) nb ev have res: "queue' = queue2" "visited' = visited2" "s' = s5"
    by (auto simp add: bfs_iteration_def Let_def s1_def current_def s2_def
        split: if_splits)
  have c2: "config s2 = config s" by (simp add: s2_def s1_def)
  from discover_neighbors_progress [OF nb]
  have p: "config s3 = config s2" "visited \<subseteq> visited2" "visited2 - visited \<subseteq> grid_cells s2"
    "visited2 = visited \<longrightarrow> queue2 = tl queue"
    by blast+
  have "config s5 = config (draw s3)"
    using config_handle_events [of "draw s3"] ev by simp
  then have c5: "config s5 = config s" using p(1) c2 by simp
  show ?thesis
    unfolding res
  proof (rule search_order_step [OF c5 p(2)])
    show "visited2 - visited \<subseteq> grid_cells s"
      using p(3) grid_cells_config [OF c2] by simp
    show "length queue2 < length queue" if "visited2 = visited"
      using that p(4) assms(2) by simp
  qed
qed

text \<open>
  The \<^verbatim>\<open>while queue and not self.paused\<close> loop of \<^verbatim>\<open>breadth_first_search\<close>, and the
  function itself.
\<close>

function bfs_loop ::
  "Node list \<Rightarrow> (int \<times> int) set \<Rightarrow> pathfinder \<Rightarrow> outcome \<times> pathfinder" where
  "bfs_loop queue visited s =
     (if queue \<noteq> [] \<and> \<not> paused s then
        (case bfs_iteration queue visited s of
           Inl result \<Rightarrow> result
         | Inr (queue', visited', s') \<Rightarrow> bfs_loop queue' visited' s')
      else (NotFound, s))"
  by pat_completeness auto
termination
proof (relation "inv_image search_order (\<lambda>(queue, visited, s). (queue, visited, s))")
  show "wf (inv_image search_order (\<lambda>(queue, visited, s). (queue, visited, s)))"
    by (simp add: wf_search_order)
next
  fix queue visited s x2 queue' y visited' s'
  assume "queue \<noteq> [] \<and> \<not> paused s" "bfs_iteration queue visited s = Inr x2"
    "(queue', y) = x2" "(visited', s') = y"
  then show "((queue', visited', s'), (queue, visited, s))
      \<in> inv_image search_order (\<lambda>(queue, visited, s). (queue, visited, s))"
    using bfs_iteration_progress [of queue visited s queue' visited' s'] by auto
qed

declare bfs_loop.simps [simp del]

definition breadth_first_search :: "pathfinder \<Rightarrow> outcome \<times> pathfinder" where
  "breadth_first_search s =
     (let start_node = Node (fst (start s)) (snd (start s)) 0 None in
      bfs_loop [start_node] {node_pos start_node} s)"


section \<open>Depth-first search\<close>

text \<open>The stack is a Python list: \<^verbatim>\<open>pop()\<close> takes its last element.\<close>

definition dfs_iteration ::
  "Node list \<Rightarrow> (int \<times> int) set \<Rightarrow> pathfinder \<Rightarrow>
   (outcome \<times> pathfinder) + (Node list \<times> (int \<times> int) set \<times> pathfinder)" where
  "dfs_iteration stack visited s =
     (let s1 = snd (add_dynamic_obstacle s);
          current = last stack;
          stack1 = butlast stack in
      if node_pos current = target s1 then
        let path = reconstruct_path current in
        Inl (Found path, visualize_path s1 path)
      else
        let s2 = (if node_pos current \<noteq> start s1
                  then set_cell s1 (node_x current) (node_y current) EXPLORED else s1);
            neighbors = get_neighbors s2 current;
            (stack2, visited2, s3) = discover_neighbors (rev neighbors) (stack1, visited, s2);
            s4 = draw s3;
            (ok, s5) = handle_events_during_search s4 in
        if \<not> ok then Inl (NotFound, s5)
        else Inr (stack2, visited2, s5))"

lemma dfs_iteration_progress:
  assumes "dfs_iteration stack visited s = Inr (stack', visited', s')" "stack \<noteq> []"
  shows "((stack', visited', s'), (stack, visited, s)) \<in> search_order"
proof -
  define s1 where "s1 = snd (add_dynamic_obstacle s)"
  define current where "current = last stack"
  define s2 where "s2 = (if node_pos current \<noteq> start s1
    then set_cell s1 (node_x current) (node_y current) EXPLORED else s1)"
  obtain stack2 visited2 s3 where
    nb: "discover_neighbors (rev (get_neighbors s2 current)) (butlast stack, visited, s2) =
         (stack2, visited2, s3)"
    by (cases "discover_neighbors (rev (get_neighbors s2 current)) (butlast stack, visited, s2)")
       auto
  obtain ok s5 where ev: "handle_events_during_search (draw s3) = (ok, s5)"
    by (cases "handle_events_during_search (draw s3)") auto
  from assms(1) nb ev have res: "stack' = stack2" "visited' = visited2" "s' = s5"
    by (auto simp add: dfs_iteration_def Let_def s1_def current_def s2_def
        split: if_splits)
  have c2: "config s2 = config s" by (simp add: s2_def s1_def)
  from discover_neighbors_progress [OF nb]
  have p: "config s3 = config s2" "visited \<subseteq> visited2" "visited2 - visited \<subseteq> grid_cells s2"
    "visited2 = visited \<longrightarrow> stack2 = butlast stack"
    by blast+
  have "config s5 = config (draw s3)"
    using config_handle_events [of "draw s3"] ev by simp
  then have c5: "config s5 = config s" using p(1) c2 by simp
  show ?thesis
    unfolding res
  proof (rule search_order_step [OF c5 p(2)])
    show "visited2 - visited \<subseteq> grid_cells s"
      using p(3) grid_cells_config [OF c2] by simp
    show "length stack2 < length stack" if "visited2 = visited"
      using that p(4) assms(2) by simp
  qed
qed

function dfs_loop ::
  "Node list \<Rightarrow> (int \<times> int) set \<Rightarrow> pathfinder \<Rightarrow> outcome \<times> pathfinder" where
  "dfs_loop stack visited s =
     (if stack \<noteq> [] \<and> \<not> paused s then
        (case dfs_iteration stack visited s of
           Inl result \<Rightarrow> result
         | Inr (stack', visited', s') \<Rightarrow> dfs_loop stack' visited' s')
      else (NotFound, s))"
  by pat_completeness auto
termination
proof (relation "inv_image search_order (\<lambda>(stack, visited, s). (stack, visited, s))")
  show "wf (inv_image search_order (\<lambda>(stack, visited, s). (stack, visited, s)))"
    by (simp add: wf_search_order)
next
  fix stack visited s x2 stack' y visited' s'
  assume "stack \<noteq> [] \<and> \<not> paused s" "dfs_iteration stack visited s = Inr x2"
    "(stack', y) = x2" "(visited', s') = y"
  then show "((stack', visited', s'), (stack, visited, s))
      \<in> inv_image search_order (\<lambda>(stack, visited, s). (stack, visited, s))"
    using dfs_iteration_progress [of stack visited s stack' visited' s'] by auto
qed

declare dfs_loop.simps [simp del]

definition depth_first_search :: "pathfinder \<Rightarrow> outcome \<times> pathfinder" where
  "depth_first_search s =
     (let start_node = Node (fst (start s)) (snd (start s)) 0 None in
      dfs_loop [start_node] {node_pos start_node} s)"

section \<open>Depth-limited and iterative-deepening search\<close>

text \<open>
  \<^verbatim>\<open>dls_recursive\<close> and its loop over the neighbours. The visited set handed to a
  recursive call is a copy, so what the call adds is not seen by its caller; the grid
  and the rest of the state are shared and threaded through.
\<close>

function dls_recursive ::
    "Node \<Rightarrow> int \<Rightarrow> (int \<times> int) set \<Rightarrow> (int \<times> int) list \<Rightarrow> pathfinder \<Rightarrow>
     outcome \<times> pathfinder"
  and dls_neighbors ::
    "Node list \<Rightarrow> Node \<Rightarrow> int \<Rightarrow> (int \<times> int) set \<Rightarrow> (int \<times> int) list \<Rightarrow> pathfinder \<Rightarrow>
     outcome \<times> pathfinder" where
  "dls_recursive node depth visited path s =
     (if depth < 0 \<or> paused s then (NotFound, s)
      else
        let s1 = snd (add_dynamic_obstacle s);
            pos = node_pos node in
        if pos = target s1 then
          let full_path = path @ [pos] in
          (Found full_path, visualize_path s1 full_path)
        else
          let s2 = (if pos \<noteq> start s1
                    then set_cell s1 (node_x node) (node_y node) EXPLORED else s1);
              visited1 = insert pos visited
          in dls_neighbors (get_neighbors s2 node) node depth visited1 path s2)"
| "dls_neighbors [] node depth visited path s = (NotFound, s)"
| "dls_neighbors (neighbor # rest) node depth visited path s =
     (let neighbor_pos = node_pos neighbor in
      if neighbor_pos \<notin> visited \<and> is_valid_position s (node_x neighbor) (node_y neighbor)
      then
        let s1 = (if neighbor_pos \<noteq> target s
                  then set_cell s (node_x neighbor) (node_y neighbor) FRONTIER else s);
            s2 = draw s1;
            (ok, s3) = handle_events_during_search s2 in
        if \<not> ok then (NotFound, s3)
        else
          (case dls_recursive neighbor (depth - 1) visited (path @ [node_pos node]) s3 of
             (Found p, s4) \<Rightarrow> (Found p, s4)
           | (NotFound, s4) \<Rightarrow> dls_neighbors rest node depth visited path s4)
      else dls_neighbors rest node depth visited path s)"
  by pat_completeness auto
termination
  by (relation "inv_image (less_than <*lex*> less_than)
      (\<lambda>a. case a of
         Inl (node, depth, visited, path, s) \<Rightarrow>
           (if depth < 0 then 0 else 2 * nat depth + 3, 0)
       | Inr (nbs, node, depth, visited, path, s) \<Rightarrow>
           (if depth < 0 then 1 else 2 * nat depth + 2, length nbs))")
     (auto simp add: nat_diff_distrib)

declare dls_recursive.simps [simp del]

definition depth_limited_search :: "pathfinder \<Rightarrow> int \<Rightarrow> outcome \<times> pathfinder" where
  "depth_limited_search s depth_limit =
     (let start_node = Node (fst (start s)) (snd (start s)) 0 None in
      dls_recursive start_node depth_limit {} [] s)"

text \<open>
  \<^verbatim>\<open>iterative_deepening_dfs\<close>: the loop over \<^verbatim>\<open>range(30)\<close> as a recursion over the
  list of the depths still to try.
\<close>

fun iddfs_loop :: "int list \<Rightarrow> pathfinder \<Rightarrow> outcome \<times> pathfinder" where
  "iddfs_loop [] s = (NotFound, s)"
| "iddfs_loop (depth # later) s =
     (let s1 = s\<lparr>printed := printed s @ [IddfsDepth depth]\<rparr>;
          s2 = clear_search_visualization s1 in
      case depth_limited_search s2 depth of
        (Found p, s3) \<Rightarrow> (Found p, s3)
      | (NotFound, s3) \<Rightarrow> if paused s3 then (NotFound, s3) else iddfs_loop later s3)"

definition iterative_deepening_dfs :: "pathfinder \<Rightarrow> outcome \<times> pathfinder" where
  "iterative_deepening_dfs s = iddfs_loop [0..29] s"


section \<open>The heap of uniform-cost search\<close>

text \<open>
  \<^verbatim>\<open>heapq.heappush\<close> and \<^verbatim>\<open>heapq.heappop\<close> of the Python standard library on a list
  of nodes compared by \<^verbatim>\<open>Node.__lt__\<close>, after the library's \<^verbatim>\<open>_siftdown\<close> and
  \<^verbatim>\<open>_siftup\<close>: the loops move the hole at \<open>pos\<close>, and the item held aside is written
  into it at the end.
\<close>

function siftdown_loop :: "Node list \<Rightarrow> nat \<Rightarrow> nat \<Rightarrow> Node \<Rightarrow> Node list \<times> nat" where
  "siftdown_loop heap startpos pos newitem =
     (if pos > startpos then
        let parentpos = (pos - 1) div 2;
            parent = heap ! parentpos in
        if node_lt newitem parent
        then siftdown_loop (heap[pos := parent]) startpos parentpos newitem
        else (heap, pos)
      else (heap, pos))"
  by pat_completeness auto
termination
  by (relation "measure (\<lambda>(heap, startpos, pos, newitem). pos)") auto

declare siftdown_loop.simps [simp del]

definition siftdown :: "Node list \<Rightarrow> nat \<Rightarrow> nat \<Rightarrow> Node list" where
  "siftdown heap startpos pos =
     (let newitem = heap ! pos;
          (heap1, pos1) = siftdown_loop heap startpos pos newitem
      in heap1[pos1 := newitem])"

function siftup_loop :: "Node list \<Rightarrow> nat \<Rightarrow> nat \<Rightarrow> nat \<Rightarrow> Node list \<times> nat" where
  "siftup_loop heap endpos pos childpos =
     (if childpos < endpos then
        let rightpos = childpos + 1;
            childpos1 = (if rightpos < endpos \<and> \<not> node_lt (heap ! childpos) (heap ! rightpos)
                         then rightpos else childpos)
        in siftup_loop (heap[pos := heap ! childpos1]) endpos childpos1 (2 * childpos1 + 1)
      else (heap, pos))"
  by pat_completeness auto
termination
  by (relation "measure (\<lambda>(heap, endpos, pos, childpos). endpos - childpos)") auto

declare siftup_loop.simps [simp del]

definition siftup :: "Node list \<Rightarrow> nat \<Rightarrow> Node list" where
  "siftup heap pos =
     (let endpos = length heap;
          startpos = pos;
          newitem = heap ! pos;
          (heap1, pos1) = siftup_loop heap endpos pos (2 * pos + 1)
      in siftdown (heap1[pos1 := newitem]) startpos pos1)"

definition heappush :: "Node list \<Rightarrow> Node \<Rightarrow> Node list" where
  "heappush heap item = siftdown (heap @ [item]) 0 (length heap)"

text \<open>
  \<^verbatim>\<open>heappop\<close> is called on a non-empty heap only (the loop condition of
  \<^verbatim>\<open>uniform_cost_search\<close> tests it).
\<close>

definition heappop :: "Node list \<Rightarrow> Node \<times> Node list" where
  "heappop heap =
     (let lastelt = last heap;
          heap1 = butlast heap in
      if heap1 \<noteq> [] then
        let returnitem = heap1 ! 0
        in (returnitem, siftup (heap1[0 := lastelt]) 0)
      else (lastelt, heap1))"

lemma mset_update_move:
  "i < length xs \<Longrightarrow> j < length xs \<Longrightarrow> i \<noteq> j \<Longrightarrow>
   mset (xs[i := xs ! j, j := v]) = mset (xs[i := v])"
  by (simp add: mset_update nth_list_update_neq)

lemma siftdown_loop_mset:
  "siftdown_loop heap startpos pos newitem = (heap', pos') \<Longrightarrow> pos < length heap \<Longrightarrow>
   length heap' = length heap \<and> pos' < length heap \<and>
   mset (heap'[pos' := newitem]) = mset (heap[pos := newitem])"
proof (induction heap startpos pos newitem rule: siftdown_loop.induct)
  case (1 heap startpos pos newitem)
  show ?case
  proof (cases "pos > startpos \<and> node_lt newitem (heap ! ((pos - 1) div 2))")
    case True
    let ?pp = "(pos - 1) div 2"
    from True have lt: "?pp < pos" by auto
    from True "1.prems"(1)
    have run: "siftdown_loop (heap[pos := heap ! ?pp]) startpos ?pp newitem = (heap', pos')"
      by (subst (asm) siftdown_loop.simps) (simp add: Let_def)
    from "1.IH" [OF _ refl refl _ run] True lt "1.prems"(2)
    have ih: "length heap' = length heap" "pos' < length heap"
      "mset (heap'[pos' := newitem]) = mset (heap[pos := heap ! ?pp, ?pp := newitem])"
      by auto
    from lt "1.prems"(2)
    have "mset (heap[pos := heap ! ?pp, ?pp := newitem]) = mset (heap[pos := newitem])"
      by (intro mset_update_move) auto
    with ih show ?thesis by simp
  next
    case False
    with "1.prems" show ?thesis
      by (subst (asm) siftdown_loop.simps) (auto simp add: Let_def split: if_splits)
  qed
qed

lemma siftup_loop_mset:
  "siftup_loop heap endpos pos childpos = (heap', pos') \<Longrightarrow> endpos = length heap \<Longrightarrow>
   pos < length heap \<Longrightarrow> pos < childpos \<Longrightarrow>
   length heap' = length heap \<and> pos' < length heap \<and>
   mset (heap'[pos' := newitem]) = mset (heap[pos := newitem])"
proof (induction heap endpos pos childpos rule: siftup_loop.induct)
  case (1 heap endpos pos childpos)
  show ?case
  proof (cases "childpos < endpos")
    case True
    let ?c1 = "if childpos + 1 < endpos \<and>
        \<not> node_lt (heap ! childpos) (heap ! (childpos + 1)) then childpos + 1 else childpos"
    have c1: "?c1 < length heap" "pos < ?c1" "?c1 \<noteq> pos"
      using True "1.prems" by auto
    from True "1.prems"(1)
    have run: "siftup_loop (heap[pos := heap ! ?c1]) endpos ?c1 (2 * ?c1 + 1) = (heap', pos')"
      by (subst (asm) siftup_loop.simps) (simp only: if_True Let_def)
    have "length heap' = length (heap[pos := heap ! ?c1]) \<and>
      pos' < length (heap[pos := heap ! ?c1]) \<and>
      mset (heap'[pos' := newitem]) = mset (heap[pos := heap ! ?c1, ?c1 := newitem])"
      using "1.prems"(2) c1 by (intro "1.IH" [OF True refl refl run]) simp_all
    then have ih: "length heap' = length heap" "pos' < length heap"
      "mset (heap'[pos' := newitem]) = mset (heap[pos := heap ! ?c1, ?c1 := newitem])"
      by simp_all
    have "mset (heap[pos := heap ! ?c1, ?c1 := newitem]) = mset (heap[pos := newitem])"
      using c1 "1.prems"(3) by (intro mset_update_move) simp_all
    with ih show ?thesis by simp
  next
    case False
    with "1.prems" show ?thesis
      by (subst (asm) siftup_loop.simps) auto
  qed
qed

lemma mset_siftdown: "pos < length heap \<Longrightarrow> mset (siftdown heap startpos pos) = mset heap"
proof -
  assume a: "pos < length heap"
  obtain heap1 pos1 where r: "siftdown_loop heap startpos pos (heap ! pos) = (heap1, pos1)"
    by (cases "siftdown_loop heap startpos pos (heap ! pos)") auto
  from siftdown_loop_mset [OF r a] r show ?thesis
    by (simp add: siftdown_def)
qed

lemma mset_siftup: "pos < length heap \<Longrightarrow> mset (siftup heap pos) = mset heap"
proof -
  assume a: "pos < length heap"
  obtain heap1 pos1 where r: "siftup_loop heap (length heap) pos (2 * pos + 1) = (heap1, pos1)"
    by (cases "siftup_loop heap (length heap) pos (2 * pos + 1)") auto
  from siftup_loop_mset [OF r refl a, of "heap ! pos"]
  have l: "length heap1 = length heap" "pos1 < length heap"
    "mset (heap1[pos1 := heap ! pos]) = mset heap" by simp_all
  then have "mset (siftdown (heap1[pos1 := heap ! pos]) pos pos1) = mset heap"
    by (simp add: mset_siftdown)
  with r show ?thesis by (simp add: siftup_def)
qed

lemma mset_heappush: "mset (heappush heap item) = add_mset item (mset heap)"
  by (simp add: heappush_def mset_siftdown)

lemma mset_heappop:
  "heap \<noteq> [] \<Longrightarrow> heappop heap = (item, heap') \<Longrightarrow> mset heap = add_mset item (mset heap')"
proof -
  assume ne: "heap \<noteq> []" and pop: "heappop heap = (item, heap')"
  from ne have split: "heap = butlast heap @ [last heap]" by simp
  show ?thesis
  proof (cases "butlast heap = []")
    case True
    with pop split show ?thesis by (simp add: heappop_def)
  next
    case False
    then have z: "0 < length (butlast heap)" by (metis length_greater_0_conv)
    from False pop have item: "item = butlast heap ! 0"
      and heap': "heap' = siftup ((butlast heap)[0 := last heap]) 0"
      by (simp_all add: heappop_def Let_def)
    have "mset heap' = add_mset (last heap) (mset (butlast heap) - {#item#})"
      using z by (simp add: heap' mset_siftup mset_update item)
    moreover have "item \<in># mset (butlast heap)" using z by (simp add: item)
    moreover have "mset heap = add_mset (last heap) (mset (butlast heap))"
      by (subst split) simp
    ultimately show ?thesis by simp
  qed
qed

section \<open>Uniform-cost search\<close>

text \<open>
  The loop over the neighbours of the current node: an unvisited, valid neighbour is
  pushed when its position has no recorded cost yet or its cost improves on the
  recorded one.
\<close>

fun ucs_neighbors ::
  "Node list \<Rightarrow> (int \<times> int) set \<Rightarrow>
   Node list \<times> ((int \<times> int) \<rightharpoonup> rat) \<times> pathfinder \<Rightarrow>
   Node list \<times> ((int \<times> int) \<rightharpoonup> rat) \<times> pathfinder" where
  "ucs_neighbors [] visited (heap, costs, s) = (heap, costs, s)"
| "ucs_neighbors (neighbor # rest) visited (heap, costs, s) =
     (let pos = node_pos neighbor in
      if pos \<notin> visited \<and> is_valid_position s (node_x neighbor) (node_y neighbor) then
        if (case costs pos of None \<Rightarrow> True | Some c \<Rightarrow> node_cost neighbor < c)
        then ucs_neighbors rest visited
               (heappush heap neighbor, costs(pos \<mapsto> node_cost neighbor),
                if pos \<noteq> target s
                then set_cell s (node_x neighbor) (node_y neighbor) FRONTIER else s)
        else ucs_neighbors rest visited (heap, costs, s)
      else ucs_neighbors rest visited (heap, costs, s))"

text \<open>
  One pass through the body of the \<^verbatim>\<open>while\<close> loop; the \<^verbatim>\<open>continue\<close> on an already
  closed position goes on with the popped heap and nothing else changed.
\<close>

definition ucs_iteration ::
  "Node list \<Rightarrow> (int \<times> int) set \<Rightarrow> ((int \<times> int) \<rightharpoonup> rat) \<Rightarrow> pathfinder \<Rightarrow>
   (outcome \<times> pathfinder) +
   (Node list \<times> (int \<times> int) set \<times> ((int \<times> int) \<rightharpoonup> rat) \<times> pathfinder)" where
  "ucs_iteration priority_queue visited costs s =
     (let s1 = snd (add_dynamic_obstacle s);
          popped = heappop priority_queue;
          current = fst popped;
          heap1 = snd popped in
      if node_pos current \<in> visited then Inr (heap1, visited, costs, s1)
      else
        let visited1 = insert (node_pos current) visited in
        if node_pos current = target s1 then
          let path = reconstruct_path current in
          Inl (Found path, visualize_path s1 path)
        else
          let s2 = (if node_pos current \<noteq> start s1
                    then set_cell s1 (node_x current) (node_y current) EXPLORED else s1);
              (heap2, costs2, s3) =
                 ucs_neighbors (get_neighbors s2 current) visited1 (heap1, costs, s2);
              s4 = draw s3;
              (ok, s5) = handle_events_during_search s4 in
          if \<not> ok then Inl (NotFound, s5)
          else Inr (heap2, visited1, costs2, s5))"

lemma ucs_neighbors_progress:
  "ucs_neighbors nbs visited (heap, costs, s) = (heap', costs', s') \<Longrightarrow>
   config s' = config s \<and>
   node_pos ` set heap' \<subseteq> node_pos ` set heap \<union> grid_cells s"
proof (induction nbs arbitrary: heap costs s)
  case Nil
  then show ?case by auto
next
  case (Cons nb nbs)
  show ?case
  proof (cases "node_pos nb \<notin> visited \<and> is_valid_position s (node_x nb) (node_y nb) \<and>
      (case costs (node_pos nb) of None \<Rightarrow> True | Some c \<Rightarrow> node_cost nb < c)")
    case True
    let ?s1 = "if node_pos nb \<noteq> target s
               then set_cell s (node_x nb) (node_y nb) FRONTIER else s"
    from True Cons.prems
    have run: "ucs_neighbors nbs visited
        (heappush heap nb, costs(node_pos nb \<mapsto> node_cost nb), ?s1) = (heap', costs', s')"
      by (simp add: Let_def)
    have c1: "config ?s1 = config s" by simp
    have in_cells: "node_pos nb \<in> grid_cells s"
      using True is_valid_position_in_cells [of s "node_x nb" "node_y nb"]
      by (simp add: node_pos_def)
    have "set (heappush heap nb) = insert nb (set heap)"
      using mset_heappush [of heap nb, THEN arg_cong, of set_mset] by simp
    with Cons.IH [OF run] c1 in_cells show ?thesis
      by (auto simp add: grid_cells_config [OF c1])
  next
    case False
    with Cons.prems have "ucs_neighbors nbs visited (heap, costs, s) = (heap', costs', s')"
      by (auto simp add: Let_def split: if_splits)
    from Cons.IH [OF this] show ?thesis .
  qed
qed

definition ucs_order ::
  "((Node list \<times> (int \<times> int) set \<times> ((int \<times> int) \<rightharpoonup> rat) \<times> pathfinder) \<times>
    (Node list \<times> (int \<times> int) set \<times> ((int \<times> int) \<rightharpoonup> rat) \<times> pathfinder)) set" where
  "ucs_order =
     inv_image (less_than <*lex*> less_than)
       (\<lambda>(heap, visited, costs, s).
          (card ((grid_cells s \<union> node_pos ` set heap) - visited), length heap))"

lemma wf_ucs_order: "wf ucs_order"
  unfolding ucs_order_def by (intro wf_inv_image wf_lex_prod wf_less_than)

lemma heappop_facts:
  assumes "heap \<noteq> []" "heappop heap = (item, heap')"
  shows "item \<in> set heap" "set heap' \<subseteq> set heap" "length heap' < length heap"
proof -
  note m = mset_heappop [OF assms]
  from m have "set_mset (mset heap) = set_mset (add_mset item (mset heap'))" by simp
  then show "item \<in> set heap" "set heap' \<subseteq> set heap" by auto
  from m have "size (mset heap) = size (add_mset item (mset heap'))" by simp
  then show "length heap' < length heap" by simp
qed

lemma ucs_iteration_progress:
  assumes "ucs_iteration heap visited costs s = Inr (heap', visited', costs', s')" "heap \<noteq> []"
  shows "((heap', visited', costs', s'), (heap, visited, costs, s)) \<in> ucs_order"
proof -
  define s1 where "s1 = snd (add_dynamic_obstacle s)"
  obtain current heap1 where pop: "heappop heap = (current, heap1)"
    by (cases "heappop heap") auto
  note hp = heappop_facts [OF assms(2) pop]
  have c1: "config s1 = config s" by (simp add: s1_def)
  let ?U = "(grid_cells s \<union> node_pos ` set heap) - visited"
  have fin: "finite ?U" by simp
  show ?thesis
  proof (cases "node_pos current \<in> visited")
    case True
    with assms(1) pop have res: "heap' = heap1" "visited' = visited" "s' = s1"
      by (auto simp add: ucs_iteration_def Let_def s1_def)
    have "(grid_cells s \<union> node_pos ` set heap1) - visited \<subseteq> ?U" using hp(2) by auto
    then have "card ((grid_cells s \<union> node_pos ` set heap1) - visited) \<le> card ?U"
      by (intro card_mono fin)
    with hp(3) show ?thesis
      by (auto simp add: res ucs_order_def grid_cells_config [OF c1])
  next
    case False
    define s2 where "s2 = (if node_pos current \<noteq> start s1
      then set_cell s1 (node_x current) (node_y current) EXPLORED else s1)"
    obtain heap2 costs2 s3 where
      nb: "ucs_neighbors (get_neighbors s2 current) (insert (node_pos current) visited)
             (heap1, costs, s2) = (heap2, costs2, s3)"
      by (cases "ucs_neighbors (get_neighbors s2 current) (insert (node_pos current) visited)
             (heap1, costs, s2)") auto
    obtain ok s5 where ev: "handle_events_during_search (draw s3) = (ok, s5)"
      by (cases "handle_events_during_search (draw s3)") auto
    from assms(1) pop nb ev False
    have res: "heap' = heap2" "visited' = insert (node_pos current) visited" "s' = s5"
      by (auto simp add: ucs_iteration_def Let_def s1_def s2_def split: if_splits)
    have c2: "config s2 = config s" by (simp add: s2_def c1)
    from ucs_neighbors_progress [OF nb]
    have p: "config s3 = config s2"
      "node_pos ` set heap2 \<subseteq> node_pos ` set heap1 \<union> grid_cells s2" by blast+
    have "config s5 = config (draw s3)"
      using config_handle_events [of "draw s3"] ev by simp
    then have c5: "config s5 = config s" using p(1) c2 by simp
    have "node_pos ` set heap2 \<subseteq> node_pos ` set heap \<union> grid_cells s"
      using p(2) image_mono [OF hp(2), of node_pos] grid_cells_config [OF c2] by blast
    then have "(grid_cells s \<union> node_pos ` set heap2) - insert (node_pos current) visited
        \<subset> ?U"
      using hp(1) False by blast
    then have "card ((grid_cells s \<union> node_pos ` set heap2) - insert (node_pos current) visited)
        < card ?U"
      by (intro psubset_card_mono fin)
    then show ?thesis
      by (simp add: res ucs_order_def grid_cells_config [OF c5])
  qed
qed

function ucs_loop ::
  "Node list \<Rightarrow> (int \<times> int) set \<Rightarrow> ((int \<times> int) \<rightharpoonup> rat) \<Rightarrow> pathfinder \<Rightarrow>
   outcome \<times> pathfinder" where
  "ucs_loop priority_queue visited costs s =
     (if priority_queue \<noteq> [] \<and> \<not> paused s then
        (case ucs_iteration priority_queue visited costs s of
           Inl result \<Rightarrow> result
         | Inr (heap', visited', costs', s') \<Rightarrow> ucs_loop heap' visited' costs' s')
      else (NotFound, s))"
  by pat_completeness auto
termination
proof (relation "inv_image ucs_order (\<lambda>(heap, visited, costs, s). (heap, visited, costs, s))")
  show "wf (inv_image ucs_order (\<lambda>(heap, visited, costs, s). (heap, visited, costs, s)))"
    by (simp add: wf_ucs_order)
next
  fix heap visited costs s x2 heap' y visited' z costs' s'
  assume "heap \<noteq> [] \<and> \<not> paused s" "ucs_iteration heap visited costs s = Inr x2"
    "(heap', y) = x2" "(visited', z) = y" "(costs', s') = z"
  then show "((heap', visited', costs', s'), (heap, visited, costs, s))
      \<in> inv_image ucs_order (\<lambda>(heap, visited, costs, s). (heap, visited, costs, s))"
    using ucs_iteration_progress [of heap visited costs s heap' visited' costs' s'] by auto
qed

declare ucs_loop.simps [simp del]

definition uniform_cost_search :: "pathfinder \<Rightarrow> outcome \<times> pathfinder" where
  "uniform_cost_search s =
     (let start_node = Node (fst (start s)) (snd (start s)) 0 None in
      ucs_loop [start_node] {} (Map.empty(node_pos start_node \<mapsto> 0)) s)"

section \<open>Bidirectional search\<close>

text \<open>
  The loop over the neighbours of the current node in either half of an iteration. The
  forward half (\<open>forward = True\<close>) leaves the target's marker alone, the backward half
  the start's.
\<close>

fun bidir_neighbors ::
  "bool \<Rightarrow> Node list \<Rightarrow> Node list \<times> ((int \<times> int) \<rightharpoonup> Node) \<times> pathfinder \<Rightarrow>
   Node list \<times> ((int \<times> int) \<rightharpoonup> Node) \<times> pathfinder" where
  "bidir_neighbors forward [] (queue, visited, s) = (queue, visited, s)"
| "bidir_neighbors forward (neighbor # rest) (queue, visited, s) =
     (let neighbor_pos = node_pos neighbor in
      if visited neighbor_pos = None \<and> is_valid_position s (node_x neighbor) (node_y neighbor)
      then bidir_neighbors forward rest
             (queue @ [neighbor], visited(neighbor_pos \<mapsto> neighbor),
              if neighbor_pos \<noteq> (if forward then target s else start s)
              then set_cell s (node_x neighbor) (node_y neighbor) FRONTIER else s)
      else bidir_neighbors forward rest (queue, visited, s))"

text \<open>
  The \<^verbatim>\<open>if forward_queue:\<close> block: \<open>Inl\<close> when the dequeued position is in the backward
  visited map and the spliced path is shown, \<open>Inr\<close> with the forward queue, the forward
  visited map and the state otherwise.
\<close>

definition forward_half ::
  "Node list \<Rightarrow> ((int \<times> int) \<rightharpoonup> Node) \<Rightarrow> ((int \<times> int) \<rightharpoonup> Node) \<Rightarrow> pathfinder \<Rightarrow>
   (outcome \<times> pathfinder) + (Node list \<times> ((int \<times> int) \<rightharpoonup> Node) \<times> pathfinder)" where
  "forward_half forward_queue forward_visited backward_visited s =
     (let current = hd forward_queue;
          queue1 = tl forward_queue;
          pos = node_pos current in
      case backward_visited pos of
        Some other \<Rightarrow>
          let forward_path = reconstruct_path current;
              backward_path = rev (reconstruct_path other);
              full_path = forward_path @ tl backward_path
          in Inl (Found full_path, visualize_path s full_path)
      | None \<Rightarrow>
          let s1 = (if pos \<noteq> start s
                    then set_cell s (node_x current) (node_y current) EXPLORED else s)
          in Inr (bidir_neighbors True (get_neighbors s1 current) (queue1, forward_visited, s1)))"

text \<open>The \<^verbatim>\<open>if backward_queue:\<close> block.\<close>

definition backward_half ::
  "Node list \<Rightarrow> ((int \<times> int) \<rightharpoonup> Node) \<Rightarrow> ((int \<times> int) \<rightharpoonup> Node) \<Rightarrow> pathfinder \<Rightarrow>
   (outcome \<times> pathfinder) + (Node list \<times> ((int \<times> int) \<rightharpoonup> Node) \<times> pathfinder)" where
  "backward_half backward_queue forward_visited backward_visited s =
     (let current = hd backward_queue;
          queue1 = tl backward_queue;
          pos = node_pos current in
      case forward_visited pos of
        Some other \<Rightarrow>
          let forward_path = reconstruct_path other;
              backward_path = rev (reconstruct_path current);
              full_path = forward_path @ tl backward_path
          in Inl (Found full_path, visualize_path s full_path)
      | None \<Rightarrow>
          let s1 = (if pos \<noteq> target s
                    then set_cell s (node_x current) (node_y current) EXPLORED else s)
          in Inr (bidir_neighbors False (get_neighbors s1 current) (queue1, backward_visited, s1)))"

text \<open>One pass through the body of the \<^verbatim>\<open>while\<close> loop.\<close>

definition bidir_iteration ::
  "Node list \<Rightarrow> Node list \<Rightarrow> ((int \<times> int) \<rightharpoonup> Node) \<Rightarrow> ((int \<times> int) \<rightharpoonup> Node) \<Rightarrow> pathfinder \<Rightarrow>
   (outcome \<times> pathfinder) +
   (Node list \<times> Node list \<times> ((int \<times> int) \<rightharpoonup> Node) \<times> ((int \<times> int) \<rightharpoonup> Node) \<times> pathfinder)"
  where
  "bidir_iteration forward_queue backward_queue forward_visited backward_visited s =
     (let s1 = snd (add_dynamic_obstacle s) in
      case (if forward_queue \<noteq> []
            then forward_half forward_queue forward_visited backward_visited s1
            else Inr (forward_queue, forward_visited, s1)) of
        Inl result \<Rightarrow> Inl result
      | Inr (forward_queue1, forward_visited1, s2) \<Rightarrow>
          (case (if backward_queue \<noteq> []
                 then backward_half backward_queue forward_visited1 backward_visited s2
                 else Inr (backward_queue, backward_visited, s2)) of
             Inl result \<Rightarrow> Inl result
           | Inr (backward_queue1, backward_visited1, s3) \<Rightarrow>
               let s4 = draw s3;
                   (ok, s5) = handle_events_during_search s4 in
               if \<not> ok then Inl (NotFound, s5)
               else Inr (forward_queue1, backward_queue1, forward_visited1,
                         backward_visited1, s5)))"

lemma bidir_neighbors_progress:
  "bidir_neighbors forward nbs (queue, visited, s) = (queue', visited', s') \<Longrightarrow>
   config s' = config s \<and> dom visited \<subseteq> dom visited' \<and>
   dom visited' - dom visited \<subseteq> grid_cells s \<and>
   (dom visited' = dom visited \<longrightarrow> queue' = queue)"
proof (induction nbs arbitrary: queue visited s)
  case Nil
  then show ?case by simp
next
  case (Cons nb nbs)
  show ?case
  proof (cases "visited (node_pos nb) = None \<and> is_valid_position s (node_x nb) (node_y nb)")
    case True
    let ?s1 = "if node_pos nb \<noteq> (if forward then target s else start s)
               then set_cell s (node_x nb) (node_y nb) FRONTIER else s"
    from True Cons.prems
    have run: "bidir_neighbors forward nbs
        (queue @ [nb], visited(node_pos nb \<mapsto> nb), ?s1) = (queue', visited', s')"
      by (simp add: Let_def)
    have c1: "config ?s1 = config s" by simp
    have g1: "grid_cells ?s1 = grid_cells s" by (rule grid_cells_config [OF c1])
    have in_cells: "node_pos nb \<in> grid_cells s"
      using True is_valid_position_in_cells [of s "node_x nb" "node_y nb"]
      by (simp add: node_pos_def)
    have d: "dom (visited(node_pos nb \<mapsto> nb)) = insert (node_pos nb) (dom visited)"
      by simp
    from Cons.IH [OF run, unfolded d]
    have ih: "config s' = config ?s1" "insert (node_pos nb) (dom visited) \<subseteq> dom visited'"
      "dom visited' - insert (node_pos nb) (dom visited) \<subseteq> grid_cells ?s1"
      by blast+
    have "config s' = config s" using ih(1) c1 by simp
    moreover have "dom visited \<subseteq> dom visited'" using ih(2) by blast
    moreover have "dom visited' - dom visited \<subseteq> grid_cells s"
      using ih(3) in_cells unfolding g1 by blast
    moreover have "dom visited' \<noteq> dom visited" using ih(2) True by blast
    ultimately show ?thesis by blast
  next
    case False
    with Cons.prems
    have "bidir_neighbors forward nbs (queue, visited, s) = (queue', visited', s')"
      by (auto simp add: Let_def)
    from Cons.IH [OF this] show ?thesis .
  qed
qed

definition bidir_order ::
  "((Node list \<times> Node list \<times> ((int \<times> int) \<rightharpoonup> Node) \<times> ((int \<times> int) \<rightharpoonup> Node) \<times> pathfinder) \<times>
    (Node list \<times> Node list \<times> ((int \<times> int) \<rightharpoonup> Node) \<times> ((int \<times> int) \<rightharpoonup> Node) \<times> pathfinder))
   set" where
  "bidir_order =
     inv_image (less_than <*lex*> less_than)
       (\<lambda>(fq, bq, fv, bv, s).
          (card (grid_cells s - dom fv) + card (grid_cells s - dom bv),
           length fq + length bq))"

lemma wf_bidir_order: "wf bidir_order"
  unfolding bidir_order_def by (intro wf_inv_image wf_lex_prod wf_less_than)

lemma card_cells_mono:
  assumes "visited \<subseteq> visited'" "visited' - visited \<subseteq> grid_cells s"
  shows "card (grid_cells s - visited') \<le> card (grid_cells s - visited)"
    and "visited' \<noteq> visited \<Longrightarrow> card (grid_cells s - visited') < card (grid_cells s - visited)"
proof -
  from assms(1) show "card (grid_cells s - visited') \<le> card (grid_cells s - visited)"
    by (intro card_mono) auto
  assume "visited' \<noteq> visited"
  with assms have "grid_cells s - visited' \<subset> grid_cells s - visited" by blast
  then show "card (grid_cells s - visited') < card (grid_cells s - visited)"
    by (intro psubset_card_mono) simp_all
qed

lemma half_progress:
  assumes "(if queue \<noteq> [] then half else Inr (queue, visited, s)) = Inr (queue', visited', s')"
    and "\<And>q v t. half = Inr (q, v, t) \<Longrightarrow>
           \<exists>s1 nbs fwd. config s1 = config s \<and>
             bidir_neighbors fwd nbs (tl queue, visited, s1) = (q, v, t)"
  shows "config s' = config s \<and> dom visited \<subseteq> dom visited' \<and>
     dom visited' - dom visited \<subseteq> grid_cells s \<and>
     (dom visited' = dom visited \<longrightarrow>
        length queue' \<le> length queue \<and> (queue \<noteq> [] \<longrightarrow> length queue' < length queue))"
proof (cases "queue = []")
  case True
  with assms(1) show ?thesis by simp
next
  case False
  with assms(1) have "half = Inr (queue', visited', s')" by simp
  from assms(2) [OF this] obtain s1 nbs fwd where c: "config s1 = config s"
    and nb: "bidir_neighbors fwd nbs (tl queue, visited, s1) = (queue', visited', s')"
    by blast
  from bidir_neighbors_progress [OF nb] c False grid_cells_config [OF c]
  show ?thesis by auto
qed

lemma forward_half_shape:
  assumes "forward_half fq fv bv s = Inr (q, v, t)"
  shows "\<exists>s1 nbs fwd. config s1 = config s \<and>
     bidir_neighbors fwd nbs (tl fq, fv, s1) = (q, v, t)"
proof -
  let ?s1 = "if node_pos (hd fq) \<noteq> start s
             then set_cell s (node_x (hd fq)) (node_y (hd fq)) EXPLORED else s"
  from assms have "bidir_neighbors True (get_neighbors ?s1 (hd fq)) (tl fq, fv, ?s1) = (q, v, t)"
    by (cases "bv (node_pos (hd fq))") (simp_all add: forward_half_def Let_def)
  moreover have "config ?s1 = config s" by simp
  ultimately show ?thesis by blast
qed

lemma backward_half_shape:
  assumes "backward_half bq fv bv s = Inr (q, v, t)"
  shows "\<exists>s1 nbs fwd. config s1 = config s \<and>
     bidir_neighbors fwd nbs (tl bq, bv, s1) = (q, v, t)"
proof -
  let ?s1 = "if node_pos (hd bq) \<noteq> target s
             then set_cell s (node_x (hd bq)) (node_y (hd bq)) EXPLORED else s"
  from assms have "bidir_neighbors False (get_neighbors ?s1 (hd bq)) (tl bq, bv, ?s1) = (q, v, t)"
    by (cases "fv (node_pos (hd bq))") (simp_all add: backward_half_def Let_def)
  moreover have "config ?s1 = config s" by simp
  ultimately show ?thesis by blast
qed

lemma bidir_iteration_progress:
  assumes "bidir_iteration fq bq fv bv s = Inr (fq', bq', fv', bv', s')"
    "fq \<noteq> [] \<or> bq \<noteq> []"
  shows "((fq', bq', fv', bv', s'), (fq, bq, fv, bv, s)) \<in> bidir_order"
proof -
  let ?s1 = "snd (add_dynamic_obstacle s)"
  have c1: "config ?s1 = config s" by simp
  let ?F = "if fq \<noteq> [] then forward_half fq fv bv ?s1 else Inr (fq, fv, ?s1)"
  from assms(1) obtain fq1 fv1 s2 where F: "?F = Inr (fq1, fv1, s2)"
    by (cases ?F) (auto simp add: bidir_iteration_def Let_def)
  let ?B = "if bq \<noteq> [] then backward_half bq fv1 bv s2 else Inr (bq, bv, s2)"
  from assms(1) F obtain bq1 bv1 s3 where B: "?B = Inr (bq1, bv1, s3)"
    by (cases ?B) (auto simp add: bidir_iteration_def Let_def)
  obtain ok s5 where ev: "handle_events_during_search (draw s3) = (ok, s5)"
    by (cases "handle_events_during_search (draw s3)") auto
  from assms(1) F B ev
  have res: "fq' = fq1" "bq' = bq1" "fv' = fv1" "bv' = bv1" "s' = s5"
    by (auto simp add: bidir_iteration_def Let_def split: if_splits)
  have "config s2 = config ?s1 \<and> dom fv \<subseteq> dom fv1 \<and>
     dom fv1 - dom fv \<subseteq> grid_cells ?s1 \<and>
     (dom fv1 = dom fv \<longrightarrow>
        length fq1 \<le> length fq \<and> (fq \<noteq> [] \<longrightarrow> length fq1 < length fq))"
    by (rule half_progress [OF F]) (erule forward_half_shape)
  then have f: "config s2 = config ?s1" "dom fv \<subseteq> dom fv1" "dom fv1 - dom fv \<subseteq> grid_cells ?s1"
    "dom fv1 = dom fv \<Longrightarrow> length fq1 \<le> length fq"
    "dom fv1 = dom fv \<Longrightarrow> fq \<noteq> [] \<Longrightarrow> length fq1 < length fq"
    by blast+
  have "config s3 = config s2 \<and> dom bv \<subseteq> dom bv1 \<and>
     dom bv1 - dom bv \<subseteq> grid_cells s2 \<and>
     (dom bv1 = dom bv \<longrightarrow>
        length bq1 \<le> length bq \<and> (bq \<noteq> [] \<longrightarrow> length bq1 < length bq))"
    by (rule half_progress [OF B]) (erule backward_half_shape)
  then have b: "config s3 = config s2" "dom bv \<subseteq> dom bv1" "dom bv1 - dom bv \<subseteq> grid_cells s2"
    "dom bv1 = dom bv \<Longrightarrow> length bq1 \<le> length bq"
    "dom bv1 = dom bv \<Longrightarrow> bq \<noteq> [] \<Longrightarrow> length bq1 < length bq"
    by blast+
  have "config s5 = config (draw s3)"
    using config_handle_events [of "draw s3"] ev by simp
  then have c5: "config s5 = config s" using f(1) b(1) c1 by simp
  have g: "grid_cells ?s1 = grid_cells s" "grid_cells s2 = grid_cells s"
    "grid_cells s5 = grid_cells s"
    using grid_cells_config [OF c1] grid_cells_config [OF f(1)] grid_cells_config [OF c5]
    by simp_all
  note fm = card_cells_mono [OF f(2) f(3) [unfolded g]]
  note bm = card_cells_mono [OF b(2) b(3) [unfolded g]]
  show ?thesis
  proof (cases "dom fv1 = dom fv \<and> dom bv1 = dom bv")
    case True
    with f(4,5) b(4,5) assms(2) have "length fq1 + length bq1 < length fq + length bq"
      by (cases "fq = []") fastforce+
    with True show ?thesis
      by (simp add: res bidir_order_def g)
  next
    case False
    with fm bm
    have "card (grid_cells s - dom fv1) + card (grid_cells s - dom bv1) <
          card (grid_cells s - dom fv) + card (grid_cells s - dom bv)"
      by (cases "dom fv1 = dom fv") fastforce+
    then show ?thesis
      by (simp add: res bidir_order_def g)
  qed
qed

text \<open>
  The \<^verbatim>\<open>while (forward_queue or backward_queue) and not self.paused\<close> loop of
  \<^verbatim>\<open>bidirectional_search\<close>, and the function itself.
\<close>

function bidir_loop ::
  "Node list \<Rightarrow> Node list \<Rightarrow> ((int \<times> int) \<rightharpoonup> Node) \<Rightarrow> ((int \<times> int) \<rightharpoonup> Node) \<Rightarrow> pathfinder \<Rightarrow>
   outcome \<times> pathfinder" where
  "bidir_loop forward_queue backward_queue forward_visited backward_visited s =
     (if (forward_queue \<noteq> [] \<or> backward_queue \<noteq> []) \<and> \<not> paused s then
        (case bidir_iteration forward_queue backward_queue forward_visited backward_visited s of
           Inl result \<Rightarrow> result
         | Inr (fq', bq', fv', bv', s') \<Rightarrow> bidir_loop fq' bq' fv' bv' s')
      else (NotFound, s))"
  by pat_completeness auto
termination
proof (relation "inv_image bidir_order (\<lambda>(fq, bq, fv, bv, s). (fq, bq, fv, bv, s))")
  show "wf (inv_image bidir_order (\<lambda>(fq, bq, fv, bv, s). (fq, bq, fv, bv, s)))"
    by (simp add: wf_bidir_order)
next
  fix fq bq fv bv s x2 fq' y bq' z fv' w bv' s'
  assume "(fq \<noteq> [] \<or> bq \<noteq> []) \<and> \<not> paused s" "bidir_iteration fq bq fv bv s = Inr x2"
    "(fq', y) = x2" "(bq', z) = y" "(fv', w) = z" "(bv', s') = w"
  then show "((fq', bq', fv', bv', s'), (fq, bq, fv, bv, s))
      \<in> inv_image bidir_order (\<lambda>(fq, bq, fv, bv, s). (fq, bq, fv, bv, s))"
    using bidir_iteration_progress [of fq bq fv bv s fq' bq' fv' bv' s'] by auto
qed

declare bidir_loop.simps [simp del]

definition bidirectional_search :: "pathfinder \<Rightarrow> outcome \<times> pathfinder" where
  "bidirectional_search s =
     (let start_node = Node (fst (start s)) (snd (start s)) 0 None;
          target_node = Node (fst (target s)) (snd (target s)) 0 None
      in bidir_loop [start_node] [target_node]
           (Map.empty(node_pos start_node \<mapsto> start_node))
           (Map.empty(node_pos target_node \<mapsto> target_node)) s)"

section \<open>The controller\<close>

text \<open>
  \<^verbatim>\<open>run_algorithm\<close>. A strategy's result is kept as \<^verbatim>\<open>success\<close> only as a truth value;
  an algorithm name that matches no branch leaves it \<^verbatim>\<open>False\<close>.
\<close>

definition run_algorithm :: "pathfinder \<Rightarrow> pathfinder" where
  "run_algorithm s =
     (if is_searching s then s
      else
        let s1 = clear_search_visualization s;
            s2 = s1\<lparr>is_searching := True, search_complete := False, paused := False\<rparr>;
            s3 = s2\<lparr>printed := printed s2 @ [Running (current_algorithm s2)]\<rparr>;
            (result, s4) =
              (if current_algorithm s3 = ''BFS'' then breadth_first_search s3
               else if current_algorithm s3 = ''DFS'' then depth_first_search s3
               else if current_algorithm s3 = ''UCS'' then uniform_cost_search s3
               else if current_algorithm s3 = ''DLS'' then depth_limited_search s3 15
               else if current_algorithm s3 = ''IDDFS'' then iterative_deepening_dfs s3
               else if current_algorithm s3 = ''Bidirectional'' then bidirectional_search s3
               else (NotFound, s3));
            success = (result \<noteq> NotFound);
            s5 = s4\<lparr>is_searching := False, search_complete := True\<rparr>;
            text = (if success then ''Path found!'' else ''No path found!'')
        in s5\<lparr>printed := printed s5 @ [ResultLine (current_algorithm s5) text]\<rparr>)"

section \<open>The obstacle injector converts empty cells only\<close>

lemma set_all_positions: "set (all_positions s) = grid_cells s"
  by (auto simp add: all_positions_def grid_cells_def)

lemma in_grid_cells: "p \<in> grid_cells s \<longleftrightarrow> in_grid s p"
  by (cases p) (auto simp add: grid_cells_def in_grid_def)

lemma wf_grid_bounds:
  "wf_grid s \<Longrightarrow> in_grid s (row, col) \<Longrightarrow>
   0 \<le> row \<and> row < int (length (grid s)) \<and> 0 \<le> col \<and> col < int (length (grid s ! nat row))"
proof -
  assume wf: "wf_grid s" and ig: "in_grid s (row, col)"
  then have r: "0 \<le> row" "nat row < length (grid s)" "0 \<le> col" "col < cols s"
    by (auto simp add: wf_grid_def in_grid_def)
  from wf r(2) have "int (length (grid s ! nat row)) = cols s"
    by (simp add: wf_grid_def list_all_length)
  with r show ?thesis by auto
qed

lemma cell_set_cell:
  assumes "wf_grid s" "in_grid s (row, col)" "in_grid s (r, c)"
  shows "cell (set_cell s row col v) r c = (if (r, c) = (row, col) then v else cell s r c)"
proof (cases "(r, c) = (row, col)")
  case True
  from wf_grid_bounds [OF assms(1,2)] have "cell (set_cell s row col v) row col = v"
    by (intro cell_set_cell_same) simp_all
  with True show ?thesis by simp
next
  case False
  from assms(2,3) have "0 \<le> row" "0 \<le> col" "0 \<le> r" "0 \<le> c"
    by (simp_all add: in_grid_def)
  from cell_set_cell_other [OF this False, of s v] have "cell (set_cell s row col v) r c = cell s r c" .
  with False show ?thesis by (simp only: if_False)
qed

lemma wf_grid_set_cell: "wf_grid s \<Longrightarrow> wf_grid (set_cell s row col v)"
proof -
  assume wf: "wf_grid s"
  let ?g = "(grid s)[nat row := (grid s ! nat row)[nat col := v]]"
  have "int (length (?g ! i)) = cols s" if "i < length ?g" for i
  proof (cases "i = nat row")
    case True
    with that wf show ?thesis by (simp add: wf_grid_def list_all_length)
  next
    case False
    with that wf show ?thesis by (simp add: wf_grid_def list_all_length)
  qed
  then have "list_all (\<lambda>r. int (length r) = cols s) ?g"
    unfolding list_all_length by blast
  with wf show ?thesis
    by (simp add: wf_grid_def set_cell_def in_grid_def)
qed

section \<open>Example states\<close>

text \<open>
  The state \<^verbatim>\<open>__init__\<close> builds, for a given grid and pair of markers: BFS selected,
  wall mode, dynamic obstacles enabled with probability \<open>1/1000\<close>. The environment
  draws \<open>1/2\<close> at every call of \<^verbatim>\<open>random.random()\<close> and delivers no events.
\<close>

definition initial_state ::
  "CellType list list \<Rightarrow> int \<times> int \<Rightarrow> int \<times> int \<Rightarrow> pathfinder" where
  "initial_state g st tg =
     \<lparr>grid_size = 25, rows = int (length g), cols = int (length (hd g)), grid = g,
      start = st, target = tg, current_algorithm = ''BFS'', is_searching = False,
      search_complete = False, paused = False, current_mode = ''WALL'',
      dynamic_obstacle_probability = 1 / 1000, enable_dynamic_obstacles = True,
      dynamic_obstacles_added = [], random_random = (\<lambda>_. 1 / 2), random_choice = (\<lambda>_. 0),
      rng_calls = 0, event_queue = [], frames = [], printed = []\<rparr>"

text \<open>A 3 by 3 grid with a wall in the middle, start and target in opposite corners.\<close>

definition grid3 :: "CellType list list" where
  "grid3 = [[START, EMPTY, EMPTY], [EMPTY, WALL, EMPTY], [EMPTY, EMPTY, TARGET]]"

definition state3 :: pathfinder where
  "state3 = initial_state grid3 (0, 0) (2, 2)"

section \<open>Claim C9: the obstacle injector\<close>

lemma cell_rng_calls [simp]: "cell (rng_calls_update f s) row col = cell s row col"
  by (simp add: cell_def)

lemma all_positions_rng_calls [simp]: "all_positions (rng_calls_update f s) = all_positions s"
  by (simp add: all_positions_def)

lemma add_dynamic_obstacle_cases:
  "add_dynamic_obstacle s = (added, s') \<Longrightarrow>
   (let empty_cells = filter (\<lambda>(row, col). cell s row col = EMPTY) (all_positions s) in
    if enable_dynamic_obstacles s \<and>
       random_random s (rng_calls s) < dynamic_obstacle_probability s \<and> empty_cells \<noteq> []
    then added \<and>
      (\<exists>row col. (row, col) \<in> set empty_cells \<and>
         grid s' = grid (set_cell s row col DYNAMIC_OBSTACLE) \<and>
         dynamic_obstacles_added s' = dynamic_obstacles_added s @ [(row, col)])
    else \<not> added \<and> grid s' = grid s \<and>
      dynamic_obstacles_added s' = dynamic_obstacles_added s)"
proof -
  assume a: "add_dynamic_obstacle s = (added, s')"
  let ?ec = "filter (\<lambda>(row, col). cell s row col = EMPTY) (all_positions s)"
  show ?thesis
  proof (cases "enable_dynamic_obstacles s \<and>
       random_random s (rng_calls s) < dynamic_obstacle_probability s \<and> ?ec \<noteq> []")
    case True
    obtain row col where rc: "?ec ! (random_choice s (Suc (rng_calls s)) mod length ?ec) = (row, col)"
      by (cases "?ec ! (random_choice s (Suc (rng_calls s)) mod length ?ec)") auto
    from True have "random_choice s (Suc (rng_calls s)) mod length ?ec < length ?ec" by simp
    from nth_mem [OF this] rc have mem: "(row, col) \<in> set ?ec" by simp
    from a True rc have "added" "grid s' = grid (set_cell s row col DYNAMIC_OBSTACLE)"
      "dynamic_obstacles_added s' = dynamic_obstacles_added s @ [(row, col)]"
      by (auto simp add: add_dynamic_obstacle_def Let_def set_cell_def)
    with mem True show ?thesis by (auto simp add: Let_def)
  next
    case False
    with a have "\<not> added" "grid s' = grid s"
      "dynamic_obstacles_added s' = dynamic_obstacles_added s"
      by (auto simp add: add_dynamic_obstacle_def Let_def split: if_splits)
    with False show ?thesis by (auto simp add: Let_def)
  qed
qed

lemma cell_cong_grid: "grid a = grid b \<Longrightarrow> cell a r c = cell b r c"
  by (simp add: cell_def)

text \<open>
  Claim C9. On a well-formed grid \<^verbatim>\<open>add_dynamic_obstacle\<close> returns true exactly when
  dynamic obstacles are enabled, the random draw is below the configured probability and
  some cell is Empty. When it returns true, one cell that was Empty has become
  DynamicObstacle, every other cell is unchanged (so no Frontier, Explored, Path, Start,
  Target or Wall cell is converted) and that cell's position has been appended to the
  obstacle log; when it returns false, the grid and the log are unchanged.
\<close>

theorem add_dynamic_obstacle_converts_one_empty_cell:
  assumes "wf_grid s" and "add_dynamic_obstacle s = (added, s')"
  shows "(added \<longleftrightarrow>
            enable_dynamic_obstacles s \<and>
            random_random s (rng_calls s) < dynamic_obstacle_probability s \<and>
            (\<exists>row col. in_grid s (row, col) \<and> cell s row col = EMPTY)) \<and>
         (if added then
            \<exists>row col. in_grid s (row, col) \<and> cell s row col = EMPTY \<and>
              cell s' row col = DYNAMIC_OBSTACLE \<and>
              (\<forall>r c. in_grid s (r, c) \<and> (r, c) \<noteq> (row, col) \<longrightarrow> cell s' r c = cell s r c) \<and>
              dynamic_obstacles_added s' = dynamic_obstacles_added s @ [(row, col)]
          else grid s' = grid s \<and> dynamic_obstacles_added s' = dynamic_obstacles_added s)"
proof -
  let ?ec = "filter (\<lambda>(row, col). cell s row col = EMPTY) (all_positions s)"
  have ec: "(row, col) \<in> set ?ec \<longleftrightarrow> in_grid s (row, col) \<and> cell s row col = EMPTY"
    for row col
    by (simp add: set_all_positions in_grid_cells)
  have ne: "?ec \<noteq> [] \<longleftrightarrow> (\<exists>row col. in_grid s (row, col) \<and> cell s row col = EMPTY)"
  proof
    assume "?ec \<noteq> []"
    then obtain p where "p \<in> set ?ec" by (cases ?ec) auto
    then show "\<exists>row col. in_grid s (row, col) \<and> cell s row col = EMPTY"
      using ec [of "fst p" "snd p"] by auto
  next
    assume "\<exists>row col. in_grid s (row, col) \<and> cell s row col = EMPTY"
    then obtain row col where "(row, col) \<in> set ?ec" using ec by blast
    then show "?ec \<noteq> []" by (metis list.set(1) empty_iff)
  qed
  note c = add_dynamic_obstacle_cases [OF assms(2), unfolded Let_def]
  show ?thesis
  proof (cases "enable_dynamic_obstacles s \<and>
       random_random s (rng_calls s) < dynamic_obstacle_probability s \<and> ?ec \<noteq> []")
    case True
    with c obtain row col where added: added and mem: "(row, col) \<in> set ?ec"
      and g: "grid s' = grid (set_cell s row col DYNAMIC_OBSTACLE)"
      and l: "dynamic_obstacles_added s' = dynamic_obstacles_added s @ [(row, col)]"
      by auto
    from mem ec have ig: "in_grid s (row, col)" and e: "cell s row col = EMPTY" by auto
    have upd: "cell s' r c = (if (r, c) = (row, col) then DYNAMIC_OBSTACLE else cell s r c)"
      if "in_grid s (r, c)" for r c
      using cell_cong_grid [OF g, of r c] cell_set_cell [OF assms(1) ig that] by simp
    have "cell s' row col = DYNAMIC_OBSTACLE" using upd [OF ig] by simp
    moreover have "\<forall>r c. in_grid s (r, c) \<and> (r, c) \<noteq> (row, col) \<longrightarrow> cell s' r c = cell s r c"
      using upd by auto
    ultimately have "\<exists>row col. in_grid s (row, col) \<and> cell s row col = EMPTY \<and>
        cell s' row col = DYNAMIC_OBSTACLE \<and>
        (\<forall>r c. in_grid s (r, c) \<and> (r, c) \<noteq> (row, col) \<longrightarrow> cell s' r c = cell s r c) \<and>
        dynamic_obstacles_added s' = dynamic_obstacles_added s @ [(row, col)]"
      using ig e l by blast
    with added True ne show ?thesis by simp
  next
    case False
    with c have "\<not> added" "grid s' = grid s"
      "dynamic_obstacles_added s' = dynamic_obstacles_added s" by auto
    with False ne show ?thesis by auto
  qed
qed

theorem add_dynamic_obstacle_converts_one_empty_cell_witness:
  "wf_grid state3 \<and>
   fst (add_dynamic_obstacle (state3\<lparr>random_random := (\<lambda>_. 0)\<rparr>)) \<and>
   (\<exists>row col. cell state3 row col = EMPTY \<and>
      cell (snd (add_dynamic_obstacle (state3\<lparr>random_random := (\<lambda>_. 0)\<rparr>))) row col =
        DYNAMIC_OBSTACLE \<and>
      dynamic_obstacles_added (snd (add_dynamic_obstacle (state3\<lparr>random_random := (\<lambda>_. 0)\<rparr>))) =
        [(row, col)])"
proof -
  let ?w = "state3\<lparr>random_random := (\<lambda>_. 0)\<rparr>"
  have wf0: "wf_grid state3" by code_simp
  have wf: "wf_grid ?w" by code_simp
  have added: "fst (add_dynamic_obstacle ?w) = True" by code_simp
  have log: "dynamic_obstacles_added ?w = []" by code_simp
  have c: "cell ?w row col = cell state3 row col" for row col by (simp add: cell_def)
  from add_dynamic_obstacle_converts_one_empty_cell [OF wf prod.collapse [symmetric]]
  show ?thesis
    unfolding added log c using wf0 by auto
qed

section \<open>Claim C7: placing the start and target markers\<close>

lemma cell_start_update [simp]: "cell (start_update f s) row col = cell s row col"
  by (simp add: cell_def)

lemma cell_target_update [simp]: "cell (target_update f s) row col = cell s row col"
  by (simp add: cell_def)

lemma in_grid_set_cell [simp]: "in_grid (set_cell s row col v) p = in_grid s p"
  by (simp add: in_grid_def set_cell_def)

lemma cell_set_cell_twice:
  assumes "wf_grid s" "in_grid s p" "in_grid s q" "in_grid s (r, c)"
  shows "cell (set_cell (set_cell s (fst p) (snd p) v) (fst q) (snd q) w) r c =
         (if (r, c) = q then w else if (r, c) = p then v else cell s r c)"
proof -
  have wf1: "wf_grid (set_cell s (fst p) (snd p) v)" by (rule wf_grid_set_cell [OF assms(1)])
  have "cell (set_cell (set_cell s (fst p) (snd p) v) (fst q) (snd q) w) r c =
        (if (r, c) = (fst q, snd q) then w else cell (set_cell s (fst p) (snd p) v) r c)"
    using assms by (intro cell_set_cell [OF wf1]) simp_all
  also have "cell (set_cell s (fst p) (snd p) v) r c =
        (if (r, c) = (fst p, snd p) then v else cell s r c)"
    using assms by (intro cell_set_cell) simp_all
  finally show ?thesis by simp
qed

text \<open>
  The claim as stated fails: in START mode a click on a Wall cell is not rejected. On the
  3 by 3 example, with the wall at \<open>(1, 1)\<close> and 25-pixel cells, a click at pixel
  \<open>(30, 30)\<close> changes the grid, moves the start there and overwrites the wall.
\<close>

theorem handle_grid_click_wall_counterexample:
  "cell (state3\<lparr>current_mode := ''START''\<rparr>) 1 1 = WALL \<and>
   grid (handle_grid_click (state3\<lparr>current_mode := ''START''\<rparr>) (30, 30)) \<noteq>
     grid (state3\<lparr>current_mode := ''START''\<rparr>) \<and>
   start (handle_grid_click (state3\<lparr>current_mode := ''START''\<rparr>) (30, 30)) = (1, 1) \<and>
   cell (handle_grid_click (state3\<lparr>current_mode := ''START''\<rparr>) (30, 30)) 1 1 = START"
  by code_simp

text \<open>
  Claim C7, amended. A click inside the grid is never rejected, whatever the state of the
  clicked cell (a Wall included): in START mode the prior start cell is cleared to Empty,
  the start moves to the clicked position and that cell becomes Start; likewise for the
  target in TARGET mode. All other cells are unchanged.
\<close>

theorem handle_grid_click_places_marker:
  assumes "wf_grid s" and "snd pos \<le> grid_height s"
    and "row = snd pos div grid_size s" and "col = fst pos div grid_size s"
    and "in_grid s (row, col)"
  shows "(current_mode s = ''START'' \<longrightarrow>
            start (handle_grid_click s pos) = (row, col) \<and>
            target (handle_grid_click s pos) = target s \<and>
            (\<forall>r c. in_grid s (r, c) \<longrightarrow>
               cell (handle_grid_click s pos) r c =
                 (if (r, c) = (row, col) then START
                  else if (r, c) = start s then EMPTY else cell s r c))) \<and>
         (current_mode s = ''TARGET'' \<longrightarrow>
            target (handle_grid_click s pos) = (row, col) \<and>
            start (handle_grid_click s pos) = start s \<and>
            (\<forall>r c. in_grid s (r, c) \<longrightarrow>
               cell (handle_grid_click s pos) r c =
                 (if (r, c) = (row, col) then TARGET
                  else if (r, c) = target s then EMPTY else cell s r c)))"
proof -
  from assms(5) have bounds: "0 \<le> row \<and> row < rows s \<and> 0 \<le> col \<and> col < cols s"
    by (simp add: in_grid_def)
  from assms(1) have st: "in_grid s (start s)" and tg: "in_grid s (target s)"
    by (simp_all add: wf_grid_def)
  have s_mode: "handle_grid_click s pos =
      set_cell ((set_cell s (fst (start s)) (snd (start s)) EMPTY)\<lparr>start := (row, col)\<rparr>)
        row col START" if "current_mode s = ''START''"
    using that assms(2,3,4) bounds by (simp add: handle_grid_click_def Let_def)
  have t_mode: "handle_grid_click s pos =
      set_cell ((set_cell s (fst (target s)) (snd (target s)) EMPTY)\<lparr>target := (row, col)\<rparr>)
        row col TARGET" if "current_mode s = ''TARGET''"
    using that assms(2,3,4) bounds by (simp add: handle_grid_click_def Let_def)
  have mv: "set_cell (f t) row col v = f (set_cell t row col v)"
    if "f = start_update g \<or> f = target_update g" for f g t v
    using that by (auto simp add: set_cell_def)
  have s_cell: "cell (handle_grid_click s pos) r c =
      (if (r, c) = (row, col) then START else if (r, c) = start s then EMPTY else cell s r c)"
    if "current_mode s = ''START''" "in_grid s (r, c)" for r c
    using cell_set_cell_twice [OF assms(1) st assms(5) that(2), of EMPTY START]
    by (simp add: s_mode [OF that(1)] mv [of _ "\<lambda>_. (row, col)"])
  have t_cell: "cell (handle_grid_click s pos) r c =
      (if (r, c) = (row, col) then TARGET else if (r, c) = target s then EMPTY else cell s r c)"
    if "current_mode s = ''TARGET''" "in_grid s (r, c)" for r c
    using cell_set_cell_twice [OF assms(1) tg assms(5) that(2), of EMPTY TARGET]
    by (simp add: t_mode [OF that(1)] mv [of _ "\<lambda>_. (row, col)"])
  show ?thesis
  proof (intro conjI impI allI)
    assume m: "current_mode s = ''START''"
    show "start (handle_grid_click s pos) = (row, col)"
      by (simp add: s_mode [OF m] set_cell_def)
    show "target (handle_grid_click s pos) = target s"
      by (simp add: s_mode [OF m] set_cell_def)
    fix r c assume "in_grid s (r, c)"
    from s_cell [OF m this]
    show "cell (handle_grid_click s pos) r c =
      (if (r, c) = (row, col) then START else if (r, c) = start s then EMPTY else cell s r c)" .
  next
    assume m: "current_mode s = ''TARGET''"
    show "target (handle_grid_click s pos) = (row, col)"
      by (simp add: t_mode [OF m] set_cell_def)
    show "start (handle_grid_click s pos) = start s"
      by (simp add: t_mode [OF m] set_cell_def)
    fix r c assume "in_grid s (r, c)"
    from t_cell [OF m this]
    show "cell (handle_grid_click s pos) r c =
      (if (r, c) = (row, col) then TARGET else if (r, c) = target s then EMPTY else cell s r c)" .
  qed
qed

theorem handle_grid_click_places_marker_witness:
  "start (handle_grid_click (state3\<lparr>current_mode := ''START''\<rparr>) (30, 30)) = (1, 1) \<and>
   cell (handle_grid_click (state3\<lparr>current_mode := ''START''\<rparr>) (30, 30)) 1 1 = START \<and>
   cell (handle_grid_click (state3\<lparr>current_mode := ''START''\<rparr>) (30, 30)) 0 0 = EMPTY \<and>
   cell (handle_grid_click (state3\<lparr>current_mode := ''START''\<rparr>) (30, 30)) 2 2 = TARGET"
proof -
  let ?w = "state3\<lparr>current_mode := ''START''\<rparr>"
  have h: "wf_grid ?w" "snd (30, 30) \<le> grid_height ?w"
    "(1::int) = snd (30, 30) div grid_size ?w" "(1::int) = fst (30, 30) div grid_size ?w"
    "in_grid ?w (1, 1)"
    by code_simp+
  have m: "current_mode ?w = ''START''" by simp
  have g: "in_grid ?w (1, 1)" "in_grid ?w (0, 0)" "in_grid ?w (2, 2)" by code_simp+
  have v: "start ?w = (0, 0)" "cell ?w 2 2 = TARGET" by code_simp+
  from handle_grid_click_places_marker [OF h] m
  have a: "start (handle_grid_click ?w (30, 30)) = (1, 1)"
    and b: "\<And>r c. in_grid ?w (r, c) \<Longrightarrow> cell (handle_grid_click ?w (30, 30)) r c =
       (if (r, c) = (1, 1) then START else if (r, c) = start ?w then EMPTY else cell ?w r c)"
    by blast+
  from a b [OF g(1)] b [OF g(2)] b [OF g(3)] v show ?thesis by simp
qed

section \<open>Events and the pause flag\<close>

text \<open>
  The pending events and the pause flag are read and written by
  \<^verbatim>\<open>handle_events_during_search\<close> alone.
\<close>

definition pending :: "pathfinder \<Rightarrow> event list list \<times> bool" where
  "pending s = (event_queue s, paused s)"

lemma pending_eqD:
  "pending a = pending b \<Longrightarrow> event_queue a = event_queue b \<and> paused a = paused b"
  by (simp add: pending_def)

lemma pending_set_cell [simp]: "pending (set_cell s row col v) = pending s"
  by (simp add: pending_def set_cell_def)

lemma pending_draw [simp]: "pending (draw s) = pending s"
  by (simp add: pending_def draw_def)

lemma pending_add_dynamic_obstacle [simp]: "pending (snd (add_dynamic_obstacle s)) = pending s"
  by (simp add: add_dynamic_obstacle_def Let_def pending_def set_cell_def split: prod.splits)

lemma pending_visualize_path [simp]: "pending (visualize_path s path) = pending s"
  by (induction s path rule: visualize_path.induct) simp_all

lemma pending_discover_neighbors:
  "discover_neighbors nbs (queue, visited, s) = (queue', visited', s') \<Longrightarrow> pending s' = pending s"
  by (induction nbs arbitrary: queue visited s) (auto simp add: Let_def split: if_splits)

lemma pending_ucs_neighbors:
  "ucs_neighbors nbs visited (heap, costs, s) = (heap', costs', s') \<Longrightarrow> pending s' = pending s"
  by (induction nbs arbitrary: heap costs s) (auto simp add: Let_def split: if_splits)

lemma pending_bidir_neighbors:
  "bidir_neighbors forward nbs (queue, visited, s) = (queue', visited', s') \<Longrightarrow>
   pending s' = pending s"
  by (induction nbs arbitrary: queue visited s) (auto simp add: Let_def split: if_splits)

text \<open>A window close is waiting in the batch the next event check will read.\<close>

definition quit_pending :: "pathfinder \<Rightarrow> bool" where
  "quit_pending s \<longleftrightarrow> (case event_queue s of [] \<Rightarrow> False | batch # later \<Rightarrow> QUIT \<in> set batch)"

lemma process_events_quit: "QUIT \<in> set es \<Longrightarrow> \<not> fst (process_events es s)"
  by (induction es s rule: process_events.induct) auto

lemma handle_events_quit: "quit_pending s \<Longrightarrow> \<not> fst (handle_events_during_search s)"
  by (auto simp add: quit_pending_def handle_events_during_search_def process_events_quit
      split: list.splits)

lemma quit_pending_cong: "pending a = pending b \<Longrightarrow> quit_pending a = quit_pending b"
  by (simp add: quit_pending_def pending_def)

text \<open>An iteration that ends the run with a path.\<close>

definition finds :: "(outcome \<times> pathfinder) + 'a \<Rightarrow> bool" where
  "finds r = (case r of Inl (Found p, t) \<Rightarrow> True | _ \<Rightarrow> False)"

lemma bfs_iteration_quit:
  assumes "quit_pending s" "\<not> finds (bfs_iteration queue visited s)"
  shows "\<exists>t. bfs_iteration queue visited s = Inl (NotFound, t)"
proof -
  let ?s1 = "snd (add_dynamic_obstacle s)"
  let ?s2 = "if node_pos (hd queue) \<noteq> start ?s1
    then set_cell ?s1 (node_x (hd queue)) (node_y (hd queue)) EXPLORED else ?s1"
  obtain queue2 visited2 s3 where
    nb: "discover_neighbors (get_neighbors ?s2 (hd queue)) (tl queue, visited, ?s2) =
         (queue2, visited2, s3)"
    by (cases "discover_neighbors (get_neighbors ?s2 (hd queue)) (tl queue, visited, ?s2)") auto
  have "pending (draw s3) = pending s"
    using pending_discover_neighbors [OF nb] by simp
  from quit_pending_cong [OF this] assms(1) handle_events_quit
  have "\<not> fst (handle_events_during_search (draw s3))" by blast
  with assms(2) nb show ?thesis
    by (auto simp add: bfs_iteration_def finds_def Let_def split: prod.splits if_splits)
qed

lemma dfs_iteration_quit:
  assumes "quit_pending s" "\<not> finds (dfs_iteration stack visited s)"
  shows "\<exists>t. dfs_iteration stack visited s = Inl (NotFound, t)"
proof -
  let ?s1 = "snd (add_dynamic_obstacle s)"
  let ?s2 = "if node_pos (last stack) \<noteq> start ?s1
    then set_cell ?s1 (node_x (last stack)) (node_y (last stack)) EXPLORED else ?s1"
  obtain stack2 visited2 s3 where
    nb: "discover_neighbors (rev (get_neighbors ?s2 (last stack))) (butlast stack, visited, ?s2) =
         (stack2, visited2, s3)"
    by (cases "discover_neighbors (rev (get_neighbors ?s2 (last stack)))
         (butlast stack, visited, ?s2)") auto
  have "pending (draw s3) = pending s"
    using pending_discover_neighbors [OF nb] by simp
  from quit_pending_cong [OF this] assms(1) handle_events_quit
  have "\<not> fst (handle_events_during_search (draw s3))" by blast
  with assms(2) nb show ?thesis
    by (auto simp add: dfs_iteration_def finds_def Let_def split: prod.splits if_splits)
qed

lemma ucs_iteration_quit:
  assumes "quit_pending s" "\<not> finds (ucs_iteration heap visited costs s)"
    "node_pos (fst (heappop heap)) \<notin> visited"
  shows "\<exists>t. ucs_iteration heap visited costs s = Inl (NotFound, t)"
proof -
  let ?s1 = "snd (add_dynamic_obstacle s)"
  obtain current heap1 where pop: "heappop heap = (current, heap1)"
    by (cases "heappop heap") auto
  let ?s2 = "if node_pos current \<noteq> start ?s1
    then set_cell ?s1 (node_x current) (node_y current) EXPLORED else ?s1"
  obtain heap2 costs2 s3 where
    nb: "ucs_neighbors (get_neighbors ?s2 current) (insert (node_pos current) visited)
           (heap1, costs, ?s2) = (heap2, costs2, s3)"
    by (cases "ucs_neighbors (get_neighbors ?s2 current) (insert (node_pos current) visited)
           (heap1, costs, ?s2)") auto
  have "pending (draw s3) = pending s"
    using pending_ucs_neighbors [OF nb] by simp
  from quit_pending_cong [OF this] assms(1) handle_events_quit
  have "\<not> fst (handle_events_during_search (draw s3))" by blast
  with assms(2,3) nb pop show ?thesis
    by (auto simp add: ucs_iteration_def finds_def Let_def split: prod.splits if_splits)
qed

lemma pending_half:
  assumes "(if queue \<noteq> [] then half else Inr (queue, visited, s)) = Inr (queue', visited', s')"
    and "\<And>q v t. half = Inr (q, v, t) \<Longrightarrow>
           \<exists>s1 nbs fwd. pending s1 = pending s \<and>
             bidir_neighbors fwd nbs (tl queue, visited, s1) = (q, v, t)"
  shows "pending s' = pending s"
proof (cases "queue = []")
  case True
  with assms(1) show ?thesis by simp
next
  case False
  with assms(1) have "half = Inr (queue', visited', s')" by simp
  from assms(2) [OF this] obtain s1 nbs fwd where c: "pending s1 = pending s"
    and nb: "bidir_neighbors fwd nbs (tl queue, visited, s1) = (queue', visited', s')"
    by blast
  from pending_bidir_neighbors [OF nb] c show ?thesis by simp
qed

lemma forward_half_pending:
  assumes "forward_half fq fv bv s = Inr (q, v, t)"
  shows "\<exists>s1 nbs fwd. pending s1 = pending s \<and>
     bidir_neighbors fwd nbs (tl fq, fv, s1) = (q, v, t)"
proof -
  let ?s1 = "if node_pos (hd fq) \<noteq> start s
             then set_cell s (node_x (hd fq)) (node_y (hd fq)) EXPLORED else s"
  from assms have "bidir_neighbors True (get_neighbors ?s1 (hd fq)) (tl fq, fv, ?s1) = (q, v, t)"
    by (cases "bv (node_pos (hd fq))") (simp_all add: forward_half_def Let_def)
  moreover have "pending ?s1 = pending s" by simp
  ultimately show ?thesis by blast
qed

lemma backward_half_pending:
  assumes "backward_half bq fv bv s = Inr (q, v, t)"
  shows "\<exists>s1 nbs fwd. pending s1 = pending s \<and>
     bidir_neighbors fwd nbs (tl bq, bv, s1) = (q, v, t)"
proof -
  let ?s1 = "if node_pos (hd bq) \<noteq> target s
             then set_cell s (node_x (hd bq)) (node_y (hd bq)) EXPLORED else s"
  from assms have "bidir_neighbors False (get_neighbors ?s1 (hd bq)) (tl bq, bv, ?s1) = (q, v, t)"
    by (cases "fv (node_pos (hd bq))") (simp_all add: backward_half_def Let_def)
  moreover have "pending ?s1 = pending s" by simp
  ultimately show ?thesis by blast
qed

lemma half_Inl_Found:
  "forward_half fq fv bv s = Inl r \<Longrightarrow> \<exists>p. fst r = Found p"
  "backward_half bq fv bv s = Inl r \<Longrightarrow> \<exists>p. fst r = Found p"
  by (auto simp add: forward_half_def backward_half_def Let_def split: option.splits)

lemma bidir_iteration_quit:
  assumes "quit_pending s" "\<not> finds (bidir_iteration fq bq fv bv s)"
  shows "\<exists>t. bidir_iteration fq bq fv bv s = Inl (NotFound, t)"
proof -
  let ?s1 = "snd (add_dynamic_obstacle s)"
  let ?F = "if fq \<noteq> [] then forward_half fq fv bv ?s1 else Inr (fq, fv, ?s1)"
  have noF: False if "?F = Inl r" for r
  proof -
    from that have "forward_half fq fv bv ?s1 = Inl r" by (simp split: if_splits)
    from half_Inl_Found(1) [OF this] obtain p where "fst r = Found p" by blast
    with that assms(2) show False
      by (cases r) (simp add: bidir_iteration_def finds_def Let_def)
  qed
  then obtain fq1 fv1 s2 where F: "?F = Inr (fq1, fv1, s2)"
    by (cases ?F) auto
  let ?B = "if bq \<noteq> [] then backward_half bq fv1 bv s2 else Inr (bq, bv, s2)"
  have noB: False if "?B = Inl r" for r
  proof -
    from that have "backward_half bq fv1 bv s2 = Inl r" by (simp split: if_splits)
    from half_Inl_Found(2) [OF this] obtain p where "fst r = Found p" by blast
    with that assms(2) F show False
      by (cases r) (simp add: bidir_iteration_def finds_def Let_def)
  qed
  then obtain bq1 bv1 s3 where B: "?B = Inr (bq1, bv1, s3)"
    by (cases ?B) auto
  have p2: "pending s2 = pending ?s1"
    by (rule pending_half [OF F]) (erule forward_half_pending)
  have p3: "pending s3 = pending s2"
    by (rule pending_half [OF B]) (erule backward_half_pending)
  have "pending (draw s3) = pending s" using p2 p3 by simp
  from quit_pending_cong [OF this] assms(1) handle_events_quit
  have "\<not> fst (handle_events_during_search (draw s3))" by blast
  with F B show ?thesis
    by (auto simp add: bidir_iteration_def Let_def split: prod.splits)
qed


section \<open>Claim C3: cancellation\<close>

text \<open>A grid whose only corridor is walled off: no strategy can find a path.\<close>

definition walled :: pathfinder where
  "walled = initial_state [[START, WALL, TARGET]] (0, 0) (0, 2)"

text \<open>
  The claim as stated fails: on the 3 by 3 example, where BFS finds a path, a window
  close at the first event check makes BFS return the value it returns on the walled
  grid, and \<^verbatim>\<open>run_algorithm\<close> prints the same lines and leaves the same flags in both
  runs. Nothing reported to the caller tells the cancelled run from the exhausted one.
\<close>

theorem cancellation_indistinguishable_counterexample:
  "fst (breadth_first_search state3) = Found [(0, 0), (0, 1), (1, 2), (2, 2)] \<and>
   fst (breadth_first_search (state3\<lparr>event_queue := [[QUIT]]\<rparr>)) = NotFound \<and>
   fst (breadth_first_search walled) = NotFound \<and>
   printed (run_algorithm (state3\<lparr>event_queue := [[QUIT]]\<rparr>)) =
     [Running ''BFS'', ResultLine ''BFS'' ''No path found!''] \<and>
   printed (run_algorithm walled) = [Running ''BFS'', ResultLine ''BFS'' ''No path found!''] \<and>
   (is_searching (run_algorithm (state3\<lparr>event_queue := [[QUIT]]\<rparr>)),
    search_complete (run_algorithm (state3\<lparr>event_queue := [[QUIT]]\<rparr>)),
    paused (run_algorithm (state3\<lparr>event_queue := [[QUIT]]\<rparr>))) =
   (is_searching (run_algorithm walled), search_complete (run_algorithm walled),
    paused (run_algorithm walled))"
  by code_simp

text \<open>
  Claim C3, amended. In BFS, DFS, UCS and bidirectional search, a window close waiting at
  the event check of an iteration ends the run in that iteration: unless the iteration
  itself finds the path (or, in UCS, skips an already closed position before reaching the
  event check), the loop returns \<open>NotFound\<close>, the value it returns when the frontier is
  exhausted. There is no separate cancelled outcome.
\<close>

theorem cancellation_returns_not_found:
  assumes "quit_pending s" and "\<not> paused s"
  shows "(queue \<noteq> [] \<and> \<not> finds (bfs_iteration queue bfs_visited s) \<longrightarrow>
            fst (bfs_loop queue bfs_visited s) = NotFound) \<and>
         (stack \<noteq> [] \<and> \<not> finds (dfs_iteration stack dfs_visited s) \<longrightarrow>
            fst (dfs_loop stack dfs_visited s) = NotFound) \<and>
         (heap \<noteq> [] \<and> node_pos (fst (heappop heap)) \<notin> ucs_visited \<and>
          \<not> finds (ucs_iteration heap ucs_visited costs s) \<longrightarrow>
            fst (ucs_loop heap ucs_visited costs s) = NotFound) \<and>
         ((fq \<noteq> [] \<or> bq \<noteq> []) \<and> \<not> finds (bidir_iteration fq bq fv bv s) \<longrightarrow>
            fst (bidir_loop fq bq fv bv s) = NotFound)"
proof (intro conjI impI)
  assume a: "queue \<noteq> [] \<and> \<not> finds (bfs_iteration queue bfs_visited s)"
  with bfs_iteration_quit [OF assms(1)] obtain t
    where "bfs_iteration queue bfs_visited s = Inl (NotFound, t)" by blast
  with a assms(2) show "fst (bfs_loop queue bfs_visited s) = NotFound"
    by (subst bfs_loop.simps) simp
next
  assume a: "stack \<noteq> [] \<and> \<not> finds (dfs_iteration stack dfs_visited s)"
  with dfs_iteration_quit [OF assms(1)] obtain t
    where "dfs_iteration stack dfs_visited s = Inl (NotFound, t)" by blast
  with a assms(2) show "fst (dfs_loop stack dfs_visited s) = NotFound"
    by (subst dfs_loop.simps) simp
next
  assume a: "heap \<noteq> [] \<and> node_pos (fst (heappop heap)) \<notin> ucs_visited \<and>
    \<not> finds (ucs_iteration heap ucs_visited costs s)"
  with ucs_iteration_quit [OF assms(1)] obtain t
    where "ucs_iteration heap ucs_visited costs s = Inl (NotFound, t)" by blast
  with a assms(2) show "fst (ucs_loop heap ucs_visited costs s) = NotFound"
    by (subst ucs_loop.simps) simp
next
  assume a: "(fq \<noteq> [] \<or> bq \<noteq> []) \<and> \<not> finds (bidir_iteration fq bq fv bv s)"
  with bidir_iteration_quit [OF assms(1)] obtain t
    where "bidir_iteration fq bq fv bv s = Inl (NotFound, t)" by blast
  with a assms(2) show "fst (bidir_loop fq bq fv bv s) = NotFound"
    by (subst bidir_loop.simps) simp
qed

theorem cancellation_returns_not_found_witness:
  "fst (breadth_first_search (state3\<lparr>event_queue := [[QUIT]]\<rparr>)) = NotFound \<and>
   fst (depth_first_search (state3\<lparr>event_queue := [[QUIT]]\<rparr>)) = NotFound \<and>
   fst (uniform_cost_search (state3\<lparr>event_queue := [[QUIT]]\<rparr>)) = NotFound \<and>
   fst (bidirectional_search (state3\<lparr>event_queue := [[QUIT]]\<rparr>)) = NotFound"
proof -
  let ?w = "state3\<lparr>event_queue := [[QUIT]]\<rparr>"
  let ?n = "Node 0 0 0 None"
  let ?t = "Node 2 2 0 None"
  have h: "quit_pending ?w" "\<not> paused ?w" by code_simp+
  have b: "[?n] \<noteq> [] \<and> \<not> finds (bfs_iteration [?n] {(0, 0)} ?w)" by code_simp
  have d: "[?n] \<noteq> [] \<and> \<not> finds (dfs_iteration [?n] {(0, 0)} ?w)" by code_simp
  have u: "[?n] \<noteq> [] \<and> node_pos (fst (heappop [?n])) \<notin> {} \<and>
      \<not> finds (ucs_iteration [?n] {} (Map.empty((0, 0) \<mapsto> 0)) ?w)" by code_simp
  have i: "([?n] \<noteq> [] \<or> [?t] \<noteq> []) \<and>
      \<not> finds (bidir_iteration [?n] [?t] (Map.empty((0, 0) \<mapsto> ?n)) (Map.empty((2, 2) \<mapsto> ?t)) ?w)"
    by code_simp
  have st: "start ?w = (0, 0)" "target ?w = (2, 2)" by code_simp+
  from cancellation_returns_not_found [OF h, of "[?n]" "{(0, 0)}" "[?n]" "{(0, 0)}" "[?n]" "{}"
      "Map.empty((0, 0) \<mapsto> 0)" "[?n]" "[?t]" "Map.empty((0, 0) \<mapsto> ?n)"
      "Map.empty((2, 2) \<mapsto> ?t)"] b d u i
  show ?thesis
    by (simp add: breadth_first_search_def depth_first_search_def uniform_cost_search_def
        bidirectional_search_def Let_def st node_pos_def)
qed


section \<open>Claim C2: pausing\<close>

lemma pending_fold_set_cell:
  "pending (fold (\<lambda>(row, col) t. if P t row col then set_cell t row col v else t) ps s) =
   pending s"
  by (induction ps arbitrary: s) (auto split: prod.splits)

lemma pending_clear_search_visualization [simp]:
  "pending (clear_search_visualization s) = pending s"
  unfolding clear_search_visualization_def Let_def
  by (simp add: pending_fold_set_cell
      [where P = "\<lambda>t row col. cell t row col = FRONTIER \<or> cell t row col = EXPLORED \<or>
         cell t row col = PATH"])











section \<open>The heap is a min-heap on cost\<close>

text \<open>
  The heap property of a list: no entry is cheaper than the entry at its parent index
  \<open>(i - 1) div 2\<close>.
\<close>

definition heap_ok :: "Node list \<Rightarrow> bool" where
  "heap_ok heap \<longleftrightarrow>
     list_all (\<lambda>i. node_cost (heap ! ((i - 1) div 2)) \<le> node_cost (heap ! i)) [1..<length heap]"

lemma heap_ok_iff:
  "heap_ok heap \<longleftrightarrow>
   (\<forall>i. 0 < i \<and> i < length heap \<longrightarrow> node_cost (heap ! ((i - 1) div 2)) \<le> node_cost (heap ! i))"
  by (auto simp add: heap_ok_def list_all_iff)

text \<open>
  While a sift runs, the entry at \<open>pos\<close> is a hole: the heap property holds on every
  edge that does not touch the hole, and the hole's parent is no dearer than the hole's
  children.
\<close>

definition hole_ok :: "Node list \<Rightarrow> nat \<Rightarrow> bool" where
  "hole_ok heap pos \<longleftrightarrow>
     (\<forall>i. 0 < i \<and> i < length heap \<and> i \<noteq> pos \<and> (i - 1) div 2 \<noteq> pos \<longrightarrow>
        node_cost (heap ! ((i - 1) div 2)) \<le> node_cost (heap ! i)) \<and>
     (0 < pos \<longrightarrow>
        (\<forall>c. 0 < c \<and> c < length heap \<and> (c - 1) div 2 = pos \<longrightarrow>
           node_cost (heap ! ((pos - 1) div 2)) \<le> node_cost (heap ! c)))"

definition fits :: "Node list \<Rightarrow> nat \<Rightarrow> Node \<Rightarrow> bool" where
  "fits heap pos v \<longleftrightarrow>
     (\<forall>c. 0 < c \<and> c < length heap \<and> (c - 1) div 2 = pos \<longrightarrow> node_cost v \<le> node_cost (heap ! c))"

lemma parent_less: "0 < i \<Longrightarrow> (i - 1) div 2 < (i::nat)"
  by (simp add: div_less_dividend less_Suc_eq_le div_le_dividend le_less_trans)

lemma fill_hole:
  assumes "hole_ok heap pos" "fits heap pos v" "pos < length heap"
    "0 < pos \<Longrightarrow> node_cost (heap ! ((pos - 1) div 2)) \<le> node_cost v"
  shows "heap_ok (heap[pos := v])"
  unfolding heap_ok_iff
proof (intro allI impI)
  fix i assume i: "0 < i \<and> i < length (heap[pos := v])"
  then have pl: "(i - 1) div 2 < i" using parent_less by blast
  show "node_cost (heap[pos := v] ! ((i - 1) div 2)) \<le> node_cost (heap[pos := v] ! i)"
  proof (cases "i = pos")
    case True
    with pl have "(pos - 1) div 2 \<noteq> pos" by simp
    with True i assms(3,4) show ?thesis by (simp add: nth_list_update)
  next
    case False
    show ?thesis
    proof (cases "(i - 1) div 2 = pos")
      case True
      with False i assms(2,3) show ?thesis by (simp add: fits_def nth_list_update)
    next
      case False
      with \<open>i \<noteq> pos\<close> i assms(1) show ?thesis by (simp add: hole_ok_def nth_list_update)
    qed
  qed
qed

lemma move_parent_down:
  assumes h: "hole_ok heap pos" and f: "fits heap pos v" and p: "0 < pos" "pos < length heap"
    and lt: "node_lt v (heap ! ((pos - 1) div 2))"
  shows "hole_ok (heap[pos := heap ! ((pos - 1) div 2)]) ((pos - 1) div 2)"
    and "fits (heap[pos := heap ! ((pos - 1) div 2)]) ((pos - 1) div 2) v"
proof -
  let ?pp = "(pos - 1) div 2"
  let ?h2 = "heap[pos := heap ! ?pp]"
  have pp: "?pp < pos" using p(1) by (rule parent_less)
  have edge: "node_cost (heap ! ((i - 1) div 2)) \<le> node_cost (heap ! i)"
    if "0 < i" "i < length heap" "i \<noteq> pos" "(i - 1) div 2 \<noteq> pos" for i
    using h that by (simp add: hole_ok_def)
  have grand: "node_cost (heap ! ?pp) \<le> node_cost (heap ! c)"
    if "0 < c" "c < length heap" "(c - 1) div 2 = pos" for c
    using h p(1) that by (simp add: hole_ok_def)
  show "hole_ok ?h2 ?pp"
    unfolding hole_ok_def
  proof (intro conjI allI impI)
    fix i assume i: "0 < i \<and> i < length ?h2 \<and> i \<noteq> ?pp \<and> (i - 1) div 2 \<noteq> ?pp"
    then have ip: "i \<noteq> pos" by auto
    show "node_cost (?h2 ! ((i - 1) div 2)) \<le> node_cost (?h2 ! i)"
    proof (cases "(i - 1) div 2 = pos")
      case True
      with i ip p(2) grand [of i] show ?thesis by (simp add: nth_list_update)
    next
      case False
      with i ip edge [of i] show ?thesis by (simp add: nth_list_update)
    qed
  next
    fix c assume pos0: "0 < ?pp" and c: "0 < c \<and> c < length ?h2 \<and> (c - 1) div 2 = ?pp"
    have up: "node_cost (heap ! ((?pp - 1) div 2)) \<le> node_cost (heap ! ?pp)"
      using edge [of ?pp] pos0 pp p(2) parent_less [OF pos0] by simp
    have "(?pp - 1) div 2 \<noteq> pos" using parent_less [OF pos0] pp by simp
    then have l: "?h2 ! ((?pp - 1) div 2) = heap ! ((?pp - 1) div 2)" by simp
    show "node_cost (?h2 ! ((?pp - 1) div 2)) \<le> node_cost (?h2 ! c)"
    proof (cases "c = pos")
      case True
      with up p(2) show ?thesis unfolding l by simp
    next
      case False
      with c pp have "node_cost (heap ! ?pp) \<le> node_cost (heap ! c)"
        using edge [of c] by simp
      with up False show ?thesis unfolding l by simp
    qed
  qed
  show "fits ?h2 ?pp v"
    unfolding fits_def
  proof (intro allI impI)
    fix c assume c: "0 < c \<and> c < length ?h2 \<and> (c - 1) div 2 = ?pp"
    from lt have v: "node_cost v < node_cost (heap ! ?pp)" by (simp add: node_lt_def)
    show "node_cost v \<le> node_cost (?h2 ! c)"
    proof (cases "c = pos")
      case True
      with v p(2) show ?thesis by simp
    next
      case False
      with c pp have "node_cost (heap ! ?pp) \<le> node_cost (heap ! c)"
        using edge [of c] by simp
      with v False show ?thesis by simp
    qed
  qed
qed

lemma siftdown_loop_ok:
  "siftdown_loop heap 0 pos newitem = (heap', pos') \<Longrightarrow> pos < length heap \<Longrightarrow>
   hole_ok heap pos \<Longrightarrow> fits heap pos newitem \<Longrightarrow> heap_ok (heap'[pos' := newitem])"
proof (induction heap "0::nat" pos newitem rule: siftdown_loop.induct)
  case (1 heap pos newitem)
  let ?pp = "(pos - 1) div 2"
  show ?case
  proof (cases "pos > 0 \<and> node_lt newitem (heap ! ?pp)")
    case True
    from True "1.prems"(1)
    have run: "siftdown_loop (heap[pos := heap ! ?pp]) 0 ?pp newitem = (heap', pos')"
      by (subst (asm) siftdown_loop.simps) (simp add: Let_def)
    from True have p0: "0 < pos" and lt: "node_lt newitem (heap ! ?pp)" by simp_all
    note mv = move_parent_down [OF "1.prems"(3,4) p0 "1.prems"(2) lt]
    have "?pp < length (heap[pos := heap ! ?pp])"
      using parent_less [OF p0] "1.prems"(2) by simp
    from "1.hyps" [OF p0 refl refl lt run this mv] show ?thesis .
  next
    case False
    with "1.prems"(1) have res: "heap' = heap" "pos' = pos"
      by (subst (asm) siftdown_loop.simps, auto simp add: Let_def split: if_splits)+
    have "0 < pos \<Longrightarrow> node_cost (heap ! ?pp) \<le> node_cost newitem"
      using False by (simp add: node_lt_def)
    from fill_hole [OF "1.prems"(3,4,2) this] show ?thesis by (simp add: res)
  qed
qed


lemma children_of: "0 < c \<and> (c - 1) div 2 = pos \<longleftrightarrow> c = 2 * pos + 1 \<or> c = 2 * pos + 2"
  for c pos :: nat
  by (cases c) auto

lemma move_child_up:
  assumes h: "hole_ok heap pos" and c1: "c1 = 2 * pos + 1 \<or> c1 = 2 * pos + 2" "c1 < length heap"
    and least: "\<And>c. c = 2 * pos + 1 \<or> c = 2 * pos + 2 \<Longrightarrow> c < length heap \<Longrightarrow>
                  node_cost (heap ! c1) \<le> node_cost (heap ! c)"
  shows "hole_ok (heap[pos := heap ! c1]) c1"
proof -
  let ?h2 = "heap[pos := heap ! c1]"
  from c1 have pc: "pos < c1" "0 < c1" "(c1 - 1) div 2 = pos"
    using children_of [of c1 pos] by auto
  have edge: "node_cost (heap ! ((i - 1) div 2)) \<le> node_cost (heap ! i)"
    if "0 < i" "i < length heap" "i \<noteq> pos" "(i - 1) div 2 \<noteq> pos" for i
    using h that by (simp add: hole_ok_def)
  have grand: "node_cost (heap ! ((pos - 1) div 2)) \<le> node_cost (heap ! c)"
    if "0 < pos" "0 < c" "c < length heap" "(c - 1) div 2 = pos" for c
    using h that by (simp add: hole_ok_def)
  show ?thesis
    unfolding hole_ok_def
  proof (intro conjI allI impI)
    fix i assume i: "0 < i \<and> i < length ?h2 \<and> i \<noteq> c1 \<and> (i - 1) div 2 \<noteq> c1"
    show "node_cost (?h2 ! ((i - 1) div 2)) \<le> node_cost (?h2 ! i)"
    proof (cases "i = pos")
      case True
      with i have p0: "0 < pos" by simp
      have "(pos - 1) div 2 \<noteq> pos" using parent_less [OF p0] by simp
      with True i grand [OF p0 pc(2) c1(2) pc(3)] show ?thesis
        by (simp add: nth_list_update)
    next
      case False
      show ?thesis
      proof (cases "(i - 1) div 2 = pos")
        case True
        with i have "i = 2 * pos + 1 \<or> i = 2 * pos + 2" using children_of [of i pos] by simp
        from least [OF this] i True False pc(1) c1(2) show ?thesis
          by (simp add: nth_list_update)
      next
        case False
        with i \<open>i \<noteq> pos\<close> edge [of i] show ?thesis by (simp add: nth_list_update)
      qed
    qed
  next
    fix c assume c: "0 < c \<and> c < length ?h2 \<and> (c - 1) div 2 = c1"
    then have "c1 < c" using parent_less [of c] by simp
    with pc(1) have cp: "c \<noteq> pos" "(c - 1) div 2 \<noteq> pos" using c by simp_all
    with c edge [of c] have "node_cost (heap ! c1) \<le> node_cost (heap ! c)" by simp
    with cp c pc c1(2) show "node_cost (?h2 ! ((c1 - 1) div 2)) \<le> node_cost (?h2 ! c)"
      by (simp add: nth_list_update)
  qed
qed

lemma siftup_loop_ok:
  "siftup_loop heap endpos pos childpos = (heap', pos') \<Longrightarrow> endpos = length heap \<Longrightarrow>
   childpos = 2 * pos + 1 \<Longrightarrow> pos < length heap \<Longrightarrow> hole_ok heap pos \<Longrightarrow>
   hole_ok heap' pos' \<and> length heap' = length heap \<and> pos' < length heap \<and>
   length heap \<le> 2 * pos' + 1"
proof (induction heap endpos pos childpos rule: siftup_loop.induct)
  case (1 heap endpos pos childpos)
  show ?case
  proof (cases "childpos < endpos")
    case True
    let ?c1 = "if childpos + 1 < endpos \<and>
        \<not> node_lt (heap ! childpos) (heap ! (childpos + 1)) then childpos + 1 else childpos"
    from True "1.prems"(1)
    have run: "siftup_loop (heap[pos := heap ! ?c1]) endpos ?c1 (2 * ?c1 + 1) = (heap', pos')"
      by (subst (asm) siftup_loop.simps) (simp only: if_True Let_def)
    have c1: "?c1 = 2 * pos + 1 \<or> ?c1 = 2 * pos + 2" "?c1 < length heap"
      using True "1.prems"(2,3) by auto
    have least: "node_cost (heap ! ?c1) \<le> node_cost (heap ! c)"
      if "c = 2 * pos + 1 \<or> c = 2 * pos + 2" "c < length heap" for c
      using that True "1.prems"(2,3) by (auto simp add: node_lt_def)
    have hole: "hole_ok (heap[pos := heap ! ?c1]) ?c1"
      using "1.prems"(5) c1 least by (rule move_child_up)
    have "hole_ok heap' pos' \<and> length heap' = length (heap[pos := heap ! ?c1]) \<and>
        pos' < length (heap[pos := heap ! ?c1]) \<and>
        length (heap[pos := heap ! ?c1]) \<le> 2 * pos' + 1"
      using "1.prems"(2) c1(2) hole by (intro "1.IH" [OF True refl refl run]) simp_all
    then show ?thesis by simp
  next
    case False
    with "1.prems"(1) have "heap' = heap" "pos' = pos"
      by (subst (asm) siftup_loop.simps, simp)+
    with False "1.prems" show ?thesis by simp
  qed
qed

lemma heap_ok_siftdown:
  assumes "hole_ok heap pos" "fits heap pos (heap ! pos)" "pos < length heap"
  shows "heap_ok (siftdown heap 0 pos)"
proof -
  obtain heap1 pos1 where r: "siftdown_loop heap 0 pos (heap ! pos) = (heap1, pos1)"
    by (cases "siftdown_loop heap 0 pos (heap ! pos)") auto
  from siftdown_loop_ok [OF r assms(3,1,2)] r show ?thesis
    by (simp add: siftdown_def)
qed

lemma heap_ok_hole: "heap_ok heap \<Longrightarrow> hole_ok heap pos"
proof -
  assume ok: "heap_ok heap"
  have e: "node_cost (heap ! ((i - 1) div 2)) \<le> node_cost (heap ! i)"
    if "0 < i" "i < length heap" for i
    using ok that by (simp add: heap_ok_iff)
  show ?thesis
    unfolding hole_ok_def
  proof (intro conjI allI impI)
    fix i assume "0 < i \<and> i < length heap \<and> i \<noteq> pos \<and> (i - 1) div 2 \<noteq> pos"
    then show "node_cost (heap ! ((i - 1) div 2)) \<le> node_cost (heap ! i)" using e by simp
  next
    fix c assume p: "0 < pos" and c: "0 < c \<and> c < length heap \<and> (c - 1) div 2 = pos"
    then have "pos < length heap" using parent_less [of c] by simp
    from e [OF p this] e [of c] c
    show "node_cost (heap ! ((pos - 1) div 2)) \<le> node_cost (heap ! c)" by simp
  qed
qed

lemma hole_ok_leaf_update:
  assumes "hole_ok heap pos"
  shows "hole_ok (heap[pos := v]) pos"
  unfolding hole_ok_def
proof (intro conjI allI impI)
  fix i assume "0 < i \<and> i < length (heap[pos := v]) \<and> i \<noteq> pos \<and> (i - 1) div 2 \<noteq> pos"
  with assms show "node_cost (heap[pos := v] ! ((i - 1) div 2)) \<le> node_cost (heap[pos := v] ! i)"
    by (simp add: hole_ok_def)
next
  fix c assume p: "0 < pos" and c: "0 < c \<and> c < length (heap[pos := v]) \<and> (c - 1) div 2 = pos"
  then have "c \<noteq> pos" "(pos - 1) div 2 \<noteq> pos"
    using parent_less [of c] parent_less [OF p] by simp_all
  with assms p c
  show "node_cost (heap[pos := v] ! ((pos - 1) div 2)) \<le> node_cost (heap[pos := v] ! c)"
    by (simp add: hole_ok_def)
qed

lemma fits_leaf: "length heap \<le> 2 * pos + 1 \<Longrightarrow> fits heap pos v"
  using children_of by (fastforce simp add: fits_def)

lemma heap_ok_heappush: "heap_ok heap \<Longrightarrow> heap_ok (heappush heap item)"
proof -
  assume ok: "heap_ok heap"
  let ?h = "heap @ [item]"
  have "hole_ok ?h (length heap)"
    unfolding hole_ok_def
  proof (intro conjI allI impI)
    fix i assume i: "0 < i \<and> i < length ?h \<and> i \<noteq> length heap \<and> (i - 1) div 2 \<noteq> length heap"
    then have "i < length heap" by simp
    moreover from this i have "(i - 1) div 2 < length heap" using parent_less [of i] by simp
    ultimately show "node_cost (?h ! ((i - 1) div 2)) \<le> node_cost (?h ! i)"
      using ok i by (simp add: heap_ok_iff nth_append)
  next
    fix c assume "0 < c \<and> c < length ?h \<and> (c - 1) div 2 = length heap"
    then have False using parent_less [of c] by simp
    then show "node_cost (?h ! ((length heap - 1) div 2)) \<le> node_cost (?h ! c)" ..
  qed
  moreover have "fits ?h (length heap) (?h ! length heap)"
    by (rule fits_leaf) simp
  ultimately show ?thesis
    unfolding heappush_def by (intro heap_ok_siftdown) simp_all
qed

lemma heap_ok_siftup:
  assumes "hole_ok heap pos" "pos < length heap"
  shows "heap_ok (siftup heap pos) \<or> pos \<noteq> 0"
proof (cases "pos = 0")
  case False
  then show ?thesis ..
next
  case True
  obtain heap1 pos1 where r: "siftup_loop heap (length heap) 0 (2 * 0 + 1) = (heap1, pos1)"
    by (cases "siftup_loop heap (length heap) 0 (2 * 0 + 1)") auto
  from siftup_loop_ok [OF r refl refl] assms True
  have l: "hole_ok heap1 pos1" "length heap1 = length heap" "pos1 < length heap"
    "length heap \<le> 2 * pos1 + 1" by simp_all
  let ?h = "heap1[pos1 := heap ! 0]"
  have "heap_ok (siftdown ?h 0 pos1)"
  proof (rule heap_ok_siftdown)
    show "hole_ok ?h pos1" using l(1) by (rule hole_ok_leaf_update)
    show "fits ?h pos1 (?h ! pos1)" using l(2,4) by (intro fits_leaf) simp
    show "pos1 < length ?h" using l(2,3) by simp
  qed
  with r True show ?thesis by (simp add: siftup_def)
qed

lemma heap_ok_butlast: "heap_ok heap \<Longrightarrow> heap_ok (butlast heap)"
proof -
  assume ok: "heap_ok heap"
  show ?thesis
    unfolding heap_ok_iff
  proof (intro allI impI)
    fix i assume i: "0 < i \<and> i < length (butlast heap)"
    then have p: "(i - 1) div 2 < length (butlast heap)" using parent_less [of i] by simp
    from i have "0 < i \<and> i < length heap" by auto
    with ok have "node_cost (heap ! ((i - 1) div 2)) \<le> node_cost (heap ! i)"
      unfolding heap_ok_iff by blast
    with i p show "node_cost (butlast heap ! ((i - 1) div 2)) \<le> node_cost (butlast heap ! i)"
      by (simp add: nth_butlast)
  qed
qed

lemma hole_ok_root_update: "heap_ok heap \<Longrightarrow> hole_ok (heap[0 := v]) 0"
proof -
  assume ok: "heap_ok heap"
  show ?thesis
    unfolding hole_ok_def
  proof (intro conjI allI impI)
    fix i assume "0 < i \<and> i < length (heap[0 := v]) \<and> i \<noteq> 0 \<and> (i - 1) div 2 \<noteq> 0"
    with ok show "node_cost (heap[0 := v] ! ((i - 1) div 2)) \<le> node_cost (heap[0 := v] ! i)"
      by (simp add: heap_ok_iff)
  qed simp
qed

lemma heap_ok_heappop:
  assumes "heap_ok heap"
  shows "heap_ok (snd (heappop heap))"
proof (cases "butlast heap = []")
  case True
  then show ?thesis by (simp add: heappop_def heap_ok_def)
next
  case False
  then have z: "0 < length (butlast heap)" by (metis length_greater_0_conv)
  let ?h = "(butlast heap)[0 := last heap]"
  have "hole_ok ?h 0" by (rule hole_ok_root_update [OF heap_ok_butlast [OF assms]])
  moreover have "0 < length ?h" using z by (simp del: length_butlast)
  ultimately have "heap_ok (siftup ?h 0)" using heap_ok_siftup [of ?h 0] by blast
  with False show ?thesis by (simp add: heappop_def Let_def)
qed

lemma heap_root_least:
  "heap_ok heap \<Longrightarrow> i < length heap \<Longrightarrow> node_cost (heap ! 0) \<le> node_cost (heap ! i)"
proof (induction i rule: less_induct)
  case (less i)
  show ?case
  proof (cases "i = 0")
    case True
    then show ?thesis by simp
  next
    case False
    then have i: "0 < i" by simp
    from parent_less [OF i] less.prems(2) have "(i - 1) div 2 < length heap" by simp
    from less.IH [OF parent_less [OF i] less.prems(1) this]
    have "node_cost (heap ! 0) \<le> node_cost (heap ! ((i - 1) div 2))" .
    also have "\<dots> \<le> node_cost (heap ! i)"
      using less.prems i by (simp add: heap_ok_iff)
    finally show ?thesis .
  qed
qed

lemma heappop_root: "heap \<noteq> [] \<Longrightarrow> fst (heappop heap) = heap ! 0"
proof -
  assume ne: "heap \<noteq> []"
  show ?thesis
  proof (cases "butlast heap = []")
    case True
    with ne have "heap = [last heap]" by (metis append_butlast_last_id append_Nil)
    then have "heap ! 0 = last heap" by (metis nth_Cons_0)
    with True show ?thesis by (simp add: heappop_def)
  next
    case False
    then have "0 < length (butlast heap)" by (metis length_greater_0_conv)
    then have "butlast heap ! 0 = heap ! 0" by (rule nth_butlast)
    with False show ?thesis by (simp add: heappop_def Let_def)
  qed
qed

lemma heappop_least:
  assumes "heap_ok heap" "heap \<noteq> []" "n \<in> set heap"
  shows "node_cost (fst (heappop heap)) \<le> node_cost n"
proof -
  from assms(3) obtain i where "i < length heap" "heap ! i = n" by (auto simp add: in_set_conv_nth)
  with heap_root_least [OF assms(1), of i] heappop_root [OF assms(2)] show ?thesis by simp
qed

section \<open>Claim C8: the order of the UCS frontier\<close>

text \<open>A 3 by 3 grid without walls, the start in the middle and the target in a corner.\<close>

definition open3 :: pathfinder where
  "open3 =
     initial_state [[EMPTY, EMPTY, EMPTY], [EMPTY, START, EMPTY], [EMPTY, EMPTY, TARGET]]
       (1, 1) (2, 2)"

text \<open>
  The claim as stated fails. In the first iteration of uniform-cost search on that grid
  the neighbours of the start are pushed in the order of \<^verbatim>\<open>get_neighbors\<close>: \<open>(0, 1)\<close>,
  \<open>(1, 2)\<close>, \<open>(2, 1)\<close> first, all of cost 1. The first pop returns \<open>(0, 1)\<close>, but the
  second returns \<open>(2, 1)\<close> while \<open>(1, 2)\<close>, pushed before it at the same cost, stays in
  the heap. The third frame of the run shows it: \<open>(2, 1)\<close> is explored, \<open>(1, 2)\<close> is
  still frontier.
\<close>

theorem ucs_tie_break_counterexample:
  "(let nbs = get_neighbors open3 (Node 1 1 0 None);
        heap = foldl heappush [] nbs;
        (first, heap1) = heappop heap;
        (second, heap2) = heappop heap1
    in (case ucs_iteration [Node 1 1 0 None] {} (Map.empty((1, 1) \<mapsto> 0)) open3 of
          Inl r \<Rightarrow> False | Inr (h, rest) \<Rightarrow> h = heap) \<and>
       map (\<lambda>n. (node_pos n, node_cost n)) (take 3 nbs) =
         [((0, 1), 1), ((1, 2), 1), ((2, 1), 1)] \<and>
       node_pos first = (0, 1) \<and> node_pos second = (2, 1) \<and> nbs ! 1 \<in> set heap2) \<and>
   frames (snd (uniform_cost_search open3)) ! 2 =
     [[FRONTIER, EXPLORED, FRONTIER], [FRONTIER, START, FRONTIER], [FRONTIER, EXPLORED, TARGET]]"
  by code_simp

text \<open>
  Claim C8, amended. The UCS frontier is a binary min-heap ordered by accumulated cost
  alone: a pop returns a node whose cost is least among the nodes of the frontier and
  removes exactly that node, a push adds exactly the pushed node, and both keep the heap
  property. Among nodes of equal cost the order of popping is that of the heap's layout;
  insertion order plays no part.
\<close>

theorem heap_pops_least_cost:
  assumes "heap_ok heap" and "heap \<noteq> []"
  shows "(\<forall>n \<in> set heap. node_cost (fst (heappop heap)) \<le> node_cost n) \<and>
         mset heap = add_mset (fst (heappop heap)) (mset (snd (heappop heap))) \<and>
         heap_ok (snd (heappop heap)) \<and>
         heap_ok (heappush heap item) \<and>
         mset (heappush heap item) = add_mset item (mset heap)"
proof (intro conjI ballI)
  fix n assume "n \<in> set heap"
  with assms show "node_cost (fst (heappop heap)) \<le> node_cost n" by (rule heappop_least)
next
  show "mset heap = add_mset (fst (heappop heap)) (mset (snd (heappop heap)))"
    using assms(2) by (intro mset_heappop) simp_all
  show "heap_ok (snd (heappop heap))" using assms(1) by (rule heap_ok_heappop)
  show "heap_ok (heappush heap item)" using assms(1) by (rule heap_ok_heappush)
  show "mset (heappush heap item) = add_mset item (mset heap)" by (rule mset_heappush)
qed

theorem heap_pops_least_cost_witness:
  "node_cost (fst (heappop (foldl heappush [] (get_neighbors open3 (Node 1 1 0 None))))) \<le>
     node_cost (Node 2 2 (7 / 5) (Some (Node 1 1 0 None))) \<and>
   heap_ok (snd (heappop (foldl heappush [] (get_neighbors open3 (Node 1 1 0 None))))) \<and>
   heap_ok (heappush (foldl heappush [] (get_neighbors open3 (Node 1 1 0 None)))
     (Node 0 0 2 None))"
proof -
  let ?h = "foldl heappush [] (get_neighbors open3 (Node 1 1 0 None))"
  have h: "heap_ok ?h" "?h \<noteq> []" by code_simp+
  have m: "Node 2 2 (7 / 5) (Some (Node 1 1 0 None)) \<in> set ?h" by code_simp
  from heap_pops_least_cost [OF h, of "Node 0 0 2 None"] m show ?thesis by blast
qed

section \<open>The start and target markers during a run\<close>

text \<open>
  A grid shows the markers of a state when the cell at the target position is Target
  and, unless the two positions coincide, the cell at the start position is Start: this
  is what \<^verbatim>\<open>clear_search_visualization\<close> establishes before every run.
\<close>

definition marked :: "int \<times> int \<Rightarrow> int \<times> int \<Rightarrow> CellType list list \<Rightarrow> bool" where
  "marked st tg g \<longleftrightarrow>
     g ! nat (fst tg) ! nat (snd tg) = TARGET \<and>
     (st \<noteq> tg \<longrightarrow> g ! nat (fst st) ! nat (snd st) = START)"

text \<open>
  The invariant of a run that began when \<open>k\<close> frames had been drawn: the grid is well
  formed and shows the markers, and so does every frame drawn since.
\<close>

definition markers_kept :: "nat \<Rightarrow> pathfinder \<Rightarrow> bool" where
  "markers_kept k s \<longleftrightarrow>
     wf_grid s \<and> marked (start s) (target s) (grid s) \<and> k \<le> length (frames s) \<and>
     list_all (marked (start s) (target s)) (drop k (frames s))"

lemma markers_kept_cong:
  assumes "config a = config b" "grid a = grid b" "frames a = frames b"
  shows "markers_kept k a = markers_kept k b"
  using assms by (simp add: markers_kept_def wf_grid_def in_grid_def config_def)

lemma marked_cell:
  "marked (start s) (target s) (grid s) \<longleftrightarrow>
     cell s (fst (target s)) (snd (target s)) = TARGET \<and>
     (start s \<noteq> target s \<longrightarrow> cell s (fst (start s)) (snd (start s)) = START)"
  by (simp add: marked_def cell_def)

lemma marked_set_cell:
  assumes "wf_grid s" "marked (start s) (target s) (grid s)" "in_grid s (row, col)"
    "(row, col) \<noteq> start s" "(row, col) \<noteq> target s"
  shows "marked (start s) (target s) (grid (set_cell s row col v))"
proof -
  from assms(1) have st: "in_grid s (fst (start s), snd (start s))"
    and tg: "in_grid s (fst (target s), snd (target s))"
    by (simp_all add: wf_grid_def)
  have "(fst (target s), snd (target s)) \<noteq> (row, col)" using assms(5) by auto
  with cell_set_cell [OF assms(1,3) tg, of v]
  have t: "cell (set_cell s row col v) (fst (target s)) (snd (target s)) =
        cell s (fst (target s)) (snd (target s))"
    by (simp only: if_False)
  have "(fst (start s), snd (start s)) \<noteq> (row, col)" using assms(4) by auto
  with cell_set_cell [OF assms(1,3) st, of v]
  have u: "cell (set_cell s row col v) (fst (start s)) (snd (start s)) =
        cell s (fst (start s)) (snd (start s))"
    by (simp only: if_False)
  from assms(2) t u show ?thesis
    by (simp add: marked_def cell_def)
qed

lemma markers_kept_set_cell:
  assumes "markers_kept k s" "in_grid s (row, col)" "(row, col) \<noteq> start s"
    "(row, col) \<noteq> target s"
  shows "markers_kept k (set_cell s row col v)"
proof -
  from assms(1) have wf: "wf_grid s" and m: "marked (start s) (target s) (grid s)"
    and fr: "k \<le> length (frames s)" "list_all (marked (start s) (target s)) (drop k (frames s))"
    by (simp_all add: markers_kept_def)
  have f: "frames (set_cell s row col v) = frames s" "start (set_cell s row col v) = start s"
    "target (set_cell s row col v) = target s"
    by (simp_all add: set_cell_def)
  show ?thesis
    unfolding markers_kept_def f
    using wf_grid_set_cell [OF wf] marked_set_cell [OF wf m assms(2,3,4)] fr by simp
qed

lemma markers_kept_draw: "markers_kept k s \<Longrightarrow> markers_kept k (draw s)"
proof -
  assume a: "markers_kept k s"
  then show ?thesis
    by (simp add: markers_kept_def draw_def wf_grid_def in_grid_def)
qed

lemma frames_add_dynamic_obstacle [simp]:
  "frames (snd (add_dynamic_obstacle s)) = frames s"
  by (simp add: add_dynamic_obstacle_def Let_def set_cell_def split: prod.splits)

lemma markers_kept_add_dynamic_obstacle:
  assumes "markers_kept k s"
  shows "markers_kept k (snd (add_dynamic_obstacle s))"
proof -
  let ?s' = "snd (add_dynamic_obstacle s)"
  let ?ec = "filter (\<lambda>(row, col). cell s row col = EMPTY) (all_positions s)"
  from assms have wf: "wf_grid s" and m: "marked (start s) (target s) (grid s)"
    by (simp_all add: markers_kept_def)
  note c = add_dynamic_obstacle_cases [OF prod.collapse [symmetric], of s, unfolded Let_def]
  have cf: "config ?s' = config s" by simp
  show ?thesis
  proof (cases "enable_dynamic_obstacles s \<and>
       random_random s (rng_calls s) < dynamic_obstacle_probability s \<and> ?ec \<noteq> []")
    case True
    with c obtain row col where mem: "(row, col) \<in> set ?ec"
      and g: "grid ?s' = grid (set_cell s row col DYNAMIC_OBSTACLE)"
      by auto
    from mem have ig: "in_grid s (row, col)" and e: "cell s row col = EMPTY"
      by (simp_all add: set_all_positions in_grid_cells)
    from m have mt: "cell s (fst (target s)) (snd (target s)) = TARGET"
      and ms: "start s \<noteq> target s \<Longrightarrow> cell s (fst (start s)) (snd (start s)) = START"
      unfolding marked_cell by blast+
    have nt: "(row, col) \<noteq> target s"
    proof
      assume "(row, col) = target s"
      then have "cell s row col = TARGET" using mt by (metis fst_conv snd_conv)
      with e show False by simp
    qed
    have ns: "(row, col) \<noteq> start s"
    proof
      assume eq: "(row, col) = start s"
      with nt have "start s \<noteq> target s" by simp
      from ms [OF this] eq have "cell s row col = START" by (metis fst_conv snd_conv)
      with e show False by simp
    qed
    note ns nt
    from markers_kept_set_cell [OF assms ig this]
    have "markers_kept k (set_cell s row col DYNAMIC_OBSTACLE)" .
    moreover have "markers_kept k ?s' = markers_kept k (set_cell s row col DYNAMIC_OBSTACLE)"
    proof (rule markers_kept_cong)
      show "config ?s' = config (set_cell s row col DYNAMIC_OBSTACLE)" by (simp add: cf)
      show "grid ?s' = grid (set_cell s row col DYNAMIC_OBSTACLE)" by (rule g)
      show "frames ?s' = frames (set_cell s row col DYNAMIC_OBSTACLE)"
        by (simp add: set_cell_def)
    qed
    ultimately show ?thesis by simp
  next
    case False
    with c have "grid ?s' = grid s" by auto
    then have "markers_kept k ?s' = markers_kept k s"
      using cf by (intro markers_kept_cong) simp_all
    with assms show ?thesis by simp
  qed
qed

lemma grid_process_events [simp]: "grid (snd (process_events es s)) = grid s"
  by (induction es s rule: process_events.induct) simp_all

lemma frames_process_events [simp]: "frames (snd (process_events es s)) = frames s"
  by (induction es s rule: process_events.induct) simp_all

lemma grid_handle_events [simp]: "grid (snd (handle_events_during_search s)) = grid s"
  by (cases "event_queue s") (simp_all add: handle_events_during_search_def)

lemma frames_handle_events [simp]: "frames (snd (handle_events_during_search s)) = frames s"
  by (cases "event_queue s") (simp_all add: handle_events_during_search_def)

lemma markers_kept_handle_events:
  "markers_kept k s \<Longrightarrow> markers_kept k (snd (handle_events_during_search s))"
proof -
  assume a: "markers_kept k s"
  have "markers_kept k (snd (handle_events_during_search s)) = markers_kept k s"
    by (rule markers_kept_cong) simp_all
  with a show ?thesis by simp
qed

lemma markers_kept_visualize_path:
  "markers_kept k s \<Longrightarrow> list_all (in_grid s) path \<Longrightarrow> markers_kept k (visualize_path s path)"
proof (induction s path rule: visualize_path.induct)
  case (1 s)
  then show ?case by simp
next
  case (2 s row col rest)
  let ?s1 = "if (row, col) \<noteq> start s \<and> (row, col) \<noteq> target s
             then set_cell s row col PATH else s"
  from "2.prems" have ig: "in_grid s (row, col)" and r: "list_all (in_grid s) rest" by simp_all
  have "markers_kept k ?s1"
    using "2.prems"(1) markers_kept_set_cell [OF "2.prems"(1) ig] by simp
  then have "markers_kept k (draw ?s1)" by (rule markers_kept_draw)
  moreover have "list_all (in_grid (draw ?s1)) rest"
    using r by (simp add: in_grid_def draw_def set_cell_def list_all_iff)
  ultimately show ?case using "2.IH" by simp
qed

subsection \<open>Nodes and their ancestors lie in the grid\<close>

definition node_in_grid :: "pathfinder \<Rightarrow> Node \<Rightarrow> bool" where
  "node_in_grid s n \<longleftrightarrow> list_all (in_grid s) (parent_chain n)"

lemma in_grid_config: "config a = config b \<Longrightarrow> in_grid a p = in_grid b p"
  by (simp add: in_grid_def config_def)

lemma node_in_grid_config: "config a = config b \<Longrightarrow> node_in_grid a n = node_in_grid b n"
proof -
  assume "config a = config b"
  then have "in_grid a = in_grid b" by (intro ext) (simp add: in_grid_def config_def)
  then show ?thesis by (simp add: node_in_grid_def)
qed

lemma parent_chain_unfold:
  "parent_chain n =
     node_pos n # (case node_parent n of None \<Rightarrow> [] | Some p \<Rightarrow> parent_chain p)"
  by (cases n rule: parent_chain.cases) (simp_all add: node_pos_def)

lemma node_in_grid_pos: "node_in_grid s n \<Longrightarrow> in_grid s (node_pos n)"
  by (subst (asm) node_in_grid_def, subst (asm) parent_chain_unfold) simp

lemma is_valid_position_in_grid: "is_valid_position s row col \<Longrightarrow> in_grid s (row, col)"
  by (simp add: is_valid_position_def in_grid_def)

text \<open>What \<^verbatim>\<open>get_neighbors\<close> yields: children of the node, one move away, at valid positions.\<close>

lemma get_neighbors_member:
  assumes "nb \<in> set (get_neighbors s n)"
  shows "node_parent nb = Some n \<and> is_valid_position s (node_x nb) (node_y nb) \<and>
     (\<exists>d \<in> set directions. node_pos nb = (node_x n + fst d, node_y n + snd d) \<and>
        node_cost nb = node_cost n + step_cost d)"
proof -
  from assms have "\<exists>d \<in> set directions. nb \<in> set (case d of (dr, dc) \<Rightarrow>
       let new_row = node_x n + dr; new_col = node_y n + dc in
       if is_valid_position s new_row new_col
       then [Node new_row new_col (node_cost n + step_cost (dr, dc)) (Some n)]
       else [])"
    unfolding get_neighbors_def set_concat set_map by blast
  then obtain dr dc where d: "(dr, dc) \<in> set directions"
    and m: "nb \<in> set (if is_valid_position s (node_x n + dr) (node_y n + dc)
       then [Node (node_x n + dr) (node_y n + dc) (node_cost n + step_cost (dr, dc)) (Some n)]
       else [])"
    unfolding Let_def by (metis (mono_tags, lifting) case_prod_conv surj_pair)
  from m have v: "is_valid_position s (node_x n + dr) (node_y n + dc)"
    and nb: "nb = Node (node_x n + dr) (node_y n + dc) (node_cost n + step_cost (dr, dc)) (Some n)"
    by (simp_all split: if_splits)
  from d have "\<exists>d \<in> set directions. node_pos nb = (node_x n + fst d, node_y n + snd d) \<and>
        node_cost nb = node_cost n + step_cost d"
    by (intro bexI [of _ "(dr, dc)"]) (simp_all add: nb node_pos_def)
  with v show ?thesis by (simp add: nb)
qed

lemma get_neighbors_in_grid:
  assumes "nb \<in> set (get_neighbors s n)" "node_in_grid s n"
  shows "list_all (in_grid s) (tl (parent_chain nb))"
proof -
  from get_neighbors_member [OF assms(1)] have "node_parent nb = Some n" by blast
  then have "tl (parent_chain nb) = parent_chain n"
    by (subst parent_chain_unfold) simp
  with assms(2) show ?thesis by (simp add: node_in_grid_def)
qed

lemma node_in_grid_child:
  "list_all (in_grid s) (tl (parent_chain nb)) \<Longrightarrow> in_grid s (node_pos nb) \<Longrightarrow>
   node_in_grid s nb"
  by (subst node_in_grid_def, subst parent_chain_unfold, subst (asm) parent_chain_unfold) simp

subsection \<open>Breadth-first and depth-first search keep the markers\<close>

lemma discover_neighbors_markers:
  assumes "discover_neighbors nbs (queue, visited, s) = (queue', visited', s')"
    and "markers_kept k s" and "start s \<in> visited"
    and "\<forall>n \<in> set queue. node_in_grid s n"
    and "\<forall>nb \<in> set nbs. list_all (in_grid s) (tl (parent_chain nb))"
  shows "markers_kept k s' \<and> start s' \<in> visited' \<and> (\<forall>n \<in> set queue'. node_in_grid s' n)"
  using assms
proof (induction nbs arbitrary: queue visited s)
  case Nil
  then show ?case by simp
next
  case (Cons nb nbs)
  show ?case
  proof (cases "node_pos nb \<notin> visited \<and> is_valid_position s (node_x nb) (node_y nb)")
    case True
    let ?s1 = "if node_pos nb \<noteq> target s
               then set_cell s (node_x nb) (node_y nb) FRONTIER else s"
    from True Cons.prems(1)
    have run: "discover_neighbors nbs (queue @ [nb], insert (node_pos nb) visited, ?s1) =
               (queue', visited', s')"
      by (simp add: Let_def)
    have c1: "config ?s1 = config s" by simp
    from True have ig: "in_grid s (node_x nb, node_y nb)"
      using is_valid_position_in_grid by blast
    from True Cons.prems(3) have ns: "(node_x nb, node_y nb) \<noteq> start s"
      by (auto simp add: node_pos_def)
    have m1: "markers_kept k ?s1"
      using Cons.prems(2) markers_kept_set_cell [OF Cons.prems(2) ig ns]
      by (simp add: node_pos_def)
    have nbg: "node_in_grid s nb"
      using Cons.prems(5) ig by (intro node_in_grid_child) (simp_all add: node_pos_def)
    show ?thesis
    proof (rule Cons.IH [OF run m1])
      show "start ?s1 \<in> insert (node_pos nb) visited"
        using Cons.prems(3) config_eqD [OF c1] by simp
      show "\<forall>n \<in> set (queue @ [nb]). node_in_grid ?s1 n"
        using Cons.prems(4) nbg by (auto simp add: node_in_grid_config [OF c1])
      show "\<forall>nb \<in> set nbs. list_all (in_grid ?s1) (tl (parent_chain nb))"
        using Cons.prems(5) by (simp add: list_all_iff in_grid_config [OF c1])
    qed
  next
    case False
    with Cons.prems(1)
    have run: "discover_neighbors nbs (queue, visited, s) = (queue', visited', s')"
      by (auto simp add: Let_def)
    show ?thesis
      using Cons.prems(5) by (intro Cons.IH [OF run Cons.prems(2,3,4)]) simp
  qed
qed

lemma list_all_in_grid_reconstruct:
  "node_in_grid s n \<Longrightarrow> list_all (in_grid s) (reconstruct_path n)"
  by (simp add: node_in_grid_def reconstruct_path_def list_all_iff)

text \<open>
  The step shared by the loops of BFS and DFS, for the node \<open>current\<close> taken from the
  queue or the stack and the rest \<open>others\<close>.
\<close>

lemma expand_markers:
  assumes inv: "markers_kept k s" "start s \<in> visited" "\<forall>n \<in> set others. node_in_grid s n"
    "node_in_grid s current"
  defines "s1 \<equiv> snd (add_dynamic_obstacle s)"
  defines "s2 \<equiv> (if node_pos current \<noteq> start s1
    then set_cell s1 (node_x current) (node_y current) EXPLORED else s1)"
  assumes nt: "node_pos current \<noteq> target s1"
    and nb: "discover_neighbors (order (get_neighbors s2 current)) (others, visited, s2) =
      (queue', visited', s3)"
    and ord: "\<And>xs. set (order xs) = set xs"
  shows "markers_kept k (snd (handle_events_during_search (draw s3))) \<and>
     start (snd (handle_events_during_search (draw s3))) \<in> visited' \<and>
     (\<forall>n \<in> set queue'. node_in_grid (snd (handle_events_during_search (draw s3))) n)"
proof -
  have c1: "config s1 = config s" by (simp add: s1_def)
  have c2: "config s2 = config s1" by (simp add: s2_def)
  have m1: "markers_kept k s1" unfolding s1_def
    using inv(1) by (rule markers_kept_add_dynamic_obstacle)
  have cur1: "node_in_grid s1 current" using inv(4) node_in_grid_config [OF c1] by simp
  have ig: "in_grid s1 (node_x current, node_y current)"
    using node_in_grid_pos [OF cur1] by (simp add: node_pos_def)
  have m2: "markers_kept k s2"
    unfolding s2_def using m1 nt markers_kept_set_cell [OF m1 ig]
    by (simp add: node_pos_def)
  have cur2: "node_in_grid s2 current" using cur1 node_in_grid_config [OF c2] by simp
  have r: "markers_kept k s3 \<and> start s3 \<in> visited' \<and> (\<forall>n \<in> set queue'. node_in_grid s3 n)"
  proof (rule discover_neighbors_markers [OF nb m2])
    show "start s2 \<in> visited" using inv(2) config_eqD [OF c1] config_eqD [OF c2] by simp
    show "\<forall>n \<in> set others. node_in_grid s2 n"
      using inv(3) node_in_grid_config [OF c1] node_in_grid_config [OF c2] by simp
    show "\<forall>nb \<in> set (order (get_neighbors s2 current)).
        list_all (in_grid s2) (tl (parent_chain nb))"
      using get_neighbors_in_grid [OF _ cur2] by (simp add: ord)
  qed
  let ?s5 = "snd (handle_events_during_search (draw s3))"
  have c5: "config ?s5 = config s3" by simp
  from r have "markers_kept k ?s5"
    by (intro markers_kept_handle_events markers_kept_draw) simp
  with r show ?thesis
    using config_eqD [OF c5] node_in_grid_config [OF c5] by simp
qed


lemma found_markers:
  assumes "markers_kept k s" "node_in_grid s current"
  shows "markers_kept k
     (visualize_path (snd (add_dynamic_obstacle s)) (reconstruct_path current))"
proof -
  let ?s1 = "snd (add_dynamic_obstacle s)"
  have c1: "config ?s1 = config s" by simp
  have "markers_kept k ?s1" using assms(1) by (rule markers_kept_add_dynamic_obstacle)
  moreover have "list_all (in_grid ?s1) (reconstruct_path current)"
    using assms(2) node_in_grid_config [OF c1] by (intro list_all_in_grid_reconstruct) simp
  ultimately show ?thesis by (rule markers_kept_visualize_path)
qed

lemma bfs_iteration_markers:
  assumes "markers_kept k s" "start s \<in> visited" "\<forall>n \<in> set queue. node_in_grid s n"
    "queue \<noteq> []"
  shows "case bfs_iteration queue visited s of
           Inl (r, s') \<Rightarrow> markers_kept k s'
         | Inr (queue', visited', s') \<Rightarrow>
             markers_kept k s' \<and> start s' \<in> visited' \<and> (\<forall>n \<in> set queue'. node_in_grid s' n)"
proof -
  let ?s1 = "snd (add_dynamic_obstacle s)"
  let ?cur = "hd queue"
  from assms(3,4) have cur: "node_in_grid s ?cur" and rest: "\<forall>n \<in> set (tl queue). node_in_grid s n"
    by (simp_all add: list.set_sel(2))
  show ?thesis
  proof (cases "node_pos ?cur = target ?s1")
    case True
    with found_markers [OF assms(1) cur] show ?thesis
      by (simp add: bfs_iteration_def Let_def)
  next
    case False
    let ?s2 = "if node_pos ?cur \<noteq> start ?s1
      then set_cell ?s1 (node_x ?cur) (node_y ?cur) EXPLORED else ?s1"
    obtain queue2 visited2 s3 where
      nb: "discover_neighbors (get_neighbors ?s2 ?cur) (tl queue, visited, ?s2) =
           (queue2, visited2, s3)"
      by (cases "discover_neighbors (get_neighbors ?s2 ?cur) (tl queue, visited, ?s2)") auto
    from expand_markers [where order = "\<lambda>xs. xs", OF assms(1,2) rest cur False nb]
    have "markers_kept k (snd (handle_events_during_search (draw s3))) \<and>
      start (snd (handle_events_during_search (draw s3))) \<in> visited2 \<and>
      (\<forall>n \<in> set queue2. node_in_grid (snd (handle_events_during_search (draw s3))) n)"
      by simp
    moreover obtain ok s5 where "handle_events_during_search (draw s3) = (ok, s5)"
      by (cases "handle_events_during_search (draw s3)") auto
    ultimately show ?thesis using False nb
      by (simp add: bfs_iteration_def Let_def split: prod.splits)
  qed
qed

lemma bfs_loop_markers:
  "markers_kept k s \<Longrightarrow> start s \<in> visited \<Longrightarrow> \<forall>n \<in> set queue. node_in_grid s n \<Longrightarrow>
   markers_kept k (snd (bfs_loop queue visited s))"
proof (induction queue visited s rule: bfs_loop.induct)
  case (1 queue visited s)
  show ?case
  proof (cases "queue \<noteq> [] \<and> \<not> paused s")
    case False
    with "1.prems"(1) show ?thesis by (subst bfs_loop.simps) auto
  next
    case True
    then have ne: "queue \<noteq> []" by simp
    note it = bfs_iteration_markers [OF "1.prems" ne]
    show ?thesis
    proof (cases "bfs_iteration queue visited s")
      case (Inl result)
      with it True show ?thesis
        by (subst bfs_loop.simps) (auto split: prod.splits)
    next
      case (Inr cont)
      obtain queue' visited' s' where cont: "cont = (queue', visited', s')"
        by (cases cont) auto
      from it Inr cont have inv': "markers_kept k s'" "start s' \<in> visited'"
        "\<forall>n \<in> set queue'. node_in_grid s' n" by simp_all
      from "1.IH" [OF True Inr cont [symmetric] refl inv']
      have "markers_kept k (snd (bfs_loop queue' visited' s'))" .
      with True Inr cont show ?thesis by (subst bfs_loop.simps) simp
    qed
  qed
qed

lemma dfs_iteration_markers:
  assumes "markers_kept k s" "start s \<in> visited" "\<forall>n \<in> set stack. node_in_grid s n"
    "stack \<noteq> []"
  shows "case dfs_iteration stack visited s of
           Inl (r, s') \<Rightarrow> markers_kept k s'
         | Inr (stack', visited', s') \<Rightarrow>
             markers_kept k s' \<and> start s' \<in> visited' \<and> (\<forall>n \<in> set stack'. node_in_grid s' n)"
proof -
  let ?s1 = "snd (add_dynamic_obstacle s)"
  let ?cur = "last stack"
  from assms(3,4) have cur: "node_in_grid s ?cur"
    and rest: "\<forall>n \<in> set (butlast stack). node_in_grid s n"
    by (auto dest: in_set_butlastD)
  show ?thesis
  proof (cases "node_pos ?cur = target ?s1")
    case True
    with found_markers [OF assms(1) cur] show ?thesis
      by (simp add: dfs_iteration_def Let_def)
  next
    case False
    let ?s2 = "if node_pos ?cur \<noteq> start ?s1
      then set_cell ?s1 (node_x ?cur) (node_y ?cur) EXPLORED else ?s1"
    obtain stack2 visited2 s3 where
      nb: "discover_neighbors (rev (get_neighbors ?s2 ?cur)) (butlast stack, visited, ?s2) =
           (stack2, visited2, s3)"
      by (cases "discover_neighbors (rev (get_neighbors ?s2 ?cur)) (butlast stack, visited, ?s2)")
         auto
    from expand_markers [where order = rev, OF assms(1,2) rest cur False nb]
    have "markers_kept k (snd (handle_events_during_search (draw s3))) \<and>
      start (snd (handle_events_during_search (draw s3))) \<in> visited2 \<and>
      (\<forall>n \<in> set stack2. node_in_grid (snd (handle_events_during_search (draw s3))) n)"
      by simp
    moreover obtain ok s5 where "handle_events_during_search (draw s3) = (ok, s5)"
      by (cases "handle_events_during_search (draw s3)") auto
    ultimately show ?thesis using False nb
      by (simp add: dfs_iteration_def Let_def split: prod.splits)
  qed
qed

lemma dfs_loop_markers:
  "markers_kept k s \<Longrightarrow> start s \<in> visited \<Longrightarrow> \<forall>n \<in> set stack. node_in_grid s n \<Longrightarrow>
   markers_kept k (snd (dfs_loop stack visited s))"
proof (induction stack visited s rule: dfs_loop.induct)
  case (1 stack visited s)
  show ?case
  proof (cases "stack \<noteq> [] \<and> \<not> paused s")
    case False
    with "1.prems"(1) show ?thesis by (subst dfs_loop.simps) auto
  next
    case True
    then have ne: "stack \<noteq> []" by simp
    note it = dfs_iteration_markers [OF "1.prems" ne]
    show ?thesis
    proof (cases "dfs_iteration stack visited s")
      case (Inl result)
      with it True show ?thesis
        by (subst dfs_loop.simps) (auto split: prod.splits)
    next
      case (Inr cont)
      obtain stack' visited' s' where cont: "cont = (stack', visited', s')"
        by (cases cont) auto
      from it Inr cont have inv': "markers_kept k s'" "start s' \<in> visited'"
        "\<forall>n \<in> set stack'. node_in_grid s' n" by simp_all
      from "1.IH" [OF True Inr cont [symmetric] refl inv']
      have "markers_kept k (snd (dfs_loop stack' visited' s'))" .
      with True Inr cont show ?thesis by (subst dfs_loop.simps) simp
    qed
  qed
qed

lemma start_node_in_grid:
  "wf_grid s \<Longrightarrow> node_in_grid s (Node (fst (start s)) (snd (start s)) 0 None)"
  by (simp add: node_in_grid_def wf_grid_def)

subsection \<open>Uniform-cost search keeps the markers\<close>

lemma set_heappush: "set (heappush heap item) = insert item (set heap)"
  using mset_heappush [of heap item, THEN arg_cong, of set_mset] by simp

lemma ucs_neighbors_markers:
  assumes "ucs_neighbors nbs visited (heap, costs, s) = (heap', costs', s')"
    and "markers_kept k s" and "start s \<in> visited"
    and "\<forall>n \<in> set heap. node_in_grid s n"
    and "\<forall>nb \<in> set nbs. list_all (in_grid s) (tl (parent_chain nb))"
  shows "markers_kept k s' \<and> (\<forall>n \<in> set heap'. node_in_grid s' n)"
  using assms
proof (induction nbs arbitrary: heap costs s)
  case Nil
  then show ?case by simp
next
  case (Cons nb nbs)
  show ?case
  proof (cases "node_pos nb \<notin> visited \<and> is_valid_position s (node_x nb) (node_y nb) \<and>
      (case costs (node_pos nb) of None \<Rightarrow> True | Some c \<Rightarrow> node_cost nb < c)")
    case True
    let ?s1 = "if node_pos nb \<noteq> target s
               then set_cell s (node_x nb) (node_y nb) FRONTIER else s"
    from True Cons.prems(1)
    have run: "ucs_neighbors nbs visited
        (heappush heap nb, costs(node_pos nb \<mapsto> node_cost nb), ?s1) = (heap', costs', s')"
      by (simp add: Let_def)
    have c1: "config ?s1 = config s" by simp
    from True have ig: "in_grid s (node_x nb, node_y nb)"
      using is_valid_position_in_grid by blast
    from True Cons.prems(3) have ns: "(node_x nb, node_y nb) \<noteq> start s"
      by (auto simp add: node_pos_def)
    have m1: "markers_kept k ?s1"
      using Cons.prems(2) markers_kept_set_cell [OF Cons.prems(2) ig ns]
      by (simp add: node_pos_def)
    have nbg: "node_in_grid s nb"
      using Cons.prems(5) ig by (intro node_in_grid_child) (simp_all add: node_pos_def)
    show ?thesis
    proof (rule Cons.IH [OF run m1])
      show "start ?s1 \<in> visited"
        using Cons.prems(3) config_eqD [OF c1] by simp
      show "\<forall>n \<in> set (heappush heap nb). node_in_grid ?s1 n"
        using Cons.prems(4) nbg by (auto simp add: set_heappush node_in_grid_config [OF c1])
      show "\<forall>nb \<in> set nbs. list_all (in_grid ?s1) (tl (parent_chain nb))"
        using Cons.prems(5) by (simp add: list_all_iff in_grid_config [OF c1])
    qed
  next
    case False
    with Cons.prems(1)
    have run: "ucs_neighbors nbs visited (heap, costs, s) = (heap', costs', s')"
      by (auto simp add: Let_def split: if_splits)
    show ?thesis
      using Cons.prems(5) by (intro Cons.IH [OF run Cons.prems(2,3,4)]) simp
  qed
qed

lemma ucs_iteration_markers:
  assumes "markers_kept k s"
    and "start s \<in> visited \<or> (\<forall>n \<in> set heap. node_pos n = start s)"
    and "\<forall>n \<in> set heap. node_in_grid s n" and "heap \<noteq> []"
  shows "case ucs_iteration heap visited costs s of
           Inl (r, s') \<Rightarrow> markers_kept k s'
         | Inr (heap', visited', costs', s') \<Rightarrow>
             markers_kept k s' \<and>
             (start s' \<in> visited' \<or> (\<forall>n \<in> set heap'. node_pos n = start s')) \<and>
             (\<forall>n \<in> set heap'. node_in_grid s' n)"
proof -
  let ?s1 = "snd (add_dynamic_obstacle s)"
  let ?cur = "fst (heappop heap)"
  let ?heap1 = "snd (heappop heap)"
  note hp = heappop_facts [OF assms(4) prod.collapse [symmetric]]
  have c1: "config ?s1 = config s" by simp
  have m1: "markers_kept k ?s1" using assms(1) by (rule markers_kept_add_dynamic_obstacle)
  from assms(3) hp(1) have cur: "node_in_grid s ?cur" by blast
  from assms(3) hp(2) have rest: "\<forall>n \<in> set ?heap1. node_in_grid s n" by blast
  show ?thesis
  proof (cases "node_pos ?cur \<in> visited")
    case True
    have "start ?s1 \<in> visited \<or> (\<forall>n \<in> set ?heap1. node_pos n = start ?s1)"
      using assms(2) hp(2) config_eqD [OF c1] by auto
    with True m1 rest show ?thesis
      by (simp add: ucs_iteration_def Let_def node_in_grid_config [OF c1])
  next
    case False
    note nv = False
    show ?thesis
    proof (cases "node_pos ?cur = target ?s1")
      case True
      with nv found_markers [OF assms(1) cur] show ?thesis
        by (simp add: ucs_iteration_def Let_def)
    next
      case False
      let ?v1 = "insert (node_pos ?cur) visited"
      let ?s2 = "if node_pos ?cur \<noteq> start ?s1
        then set_cell ?s1 (node_x ?cur) (node_y ?cur) EXPLORED else ?s1"
      have c2: "config ?s2 = config s" by (simp add: c1)
      have sv: "start s \<in> ?v1" using assms(2) hp(1) by auto
      have cur1: "node_in_grid ?s1 ?cur" using cur node_in_grid_config [OF c1] by simp
      have ig: "in_grid ?s1 (node_x ?cur, node_y ?cur)"
        using node_in_grid_pos [OF cur1] by (simp add: node_pos_def)
      have m2: "markers_kept k ?s2"
        using m1 False markers_kept_set_cell [OF m1 ig] by (simp add: node_pos_def)
      obtain heap2 costs2 s3 where
        nb: "ucs_neighbors (get_neighbors ?s2 ?cur) ?v1 (?heap1, costs, ?s2) =
               (heap2, costs2, s3)"
        by (cases "ucs_neighbors (get_neighbors ?s2 ?cur) ?v1 (?heap1, costs, ?s2)") auto
      have cur2: "node_in_grid ?s2 ?cur" using cur node_in_grid_config [OF c2] by simp
      have r: "markers_kept k s3 \<and> (\<forall>n \<in> set heap2. node_in_grid s3 n)"
      proof (rule ucs_neighbors_markers [OF nb m2])
        show "start ?s2 \<in> ?v1" using sv config_eqD [OF c2] by simp
        show "\<forall>n \<in> set ?heap1. node_in_grid ?s2 n"
          using rest node_in_grid_config [OF c2] by simp
        show "\<forall>nb \<in> set (get_neighbors ?s2 ?cur). list_all (in_grid ?s2) (tl (parent_chain nb))"
          using get_neighbors_in_grid [OF _ cur2] by simp
      qed
      have c3: "config s3 = config s"
        using ucs_neighbors_progress [OF nb] c2 by simp
      obtain ok s5 where ev: "handle_events_during_search (draw s3) = (ok, s5)"
        by (cases "handle_events_during_search (draw s3)") auto
      have s5: "s5 = snd (handle_events_during_search (draw s3))" using ev by simp
      have c5: "config s5 = config s" unfolding s5 using c3 by simp
      have m5: "markers_kept k s5" unfolding s5
        using r by (intro markers_kept_handle_events markers_kept_draw) simp
      have "start s5 \<in> ?v1" using sv config_eqD [OF c5] by simp
      moreover have "\<forall>n \<in> set heap2. node_in_grid s5 n"
        using r node_in_grid_config [OF c5] node_in_grid_config [OF c3] by simp
      ultimately show ?thesis
        using nv False nb ev m5 by (auto simp add: ucs_iteration_def Let_def)
    qed
  qed
qed

lemma ucs_loop_markers:
  "markers_kept k s \<Longrightarrow> start s \<in> visited \<or> (\<forall>n \<in> set heap. node_pos n = start s) \<Longrightarrow>
   \<forall>n \<in> set heap. node_in_grid s n \<Longrightarrow>
   markers_kept k (snd (ucs_loop heap visited costs s))"
proof (induction heap visited costs s rule: ucs_loop.induct)
  case (1 heap visited costs s)
  show ?case
  proof (cases "heap \<noteq> [] \<and> \<not> paused s")
    case False
    with "1.prems"(1) show ?thesis by (subst ucs_loop.simps) auto
  next
    case True
    then have ne: "heap \<noteq> []" by simp
    note it = ucs_iteration_markers [OF "1.prems" ne, of costs]
    show ?thesis
    proof (cases "ucs_iteration heap visited costs s")
      case (Inl result)
      with it True show ?thesis
        by (subst ucs_loop.simps) (auto split: prod.splits)
    next
      case (Inr cont)
      obtain heap' visited' costs' s' where cont: "cont = (heap', visited', costs', s')"
        by (cases cont) auto
      from it Inr cont have inv': "markers_kept k s'"
        "start s' \<in> visited' \<or> (\<forall>n \<in> set heap'. node_pos n = start s')"
        "\<forall>n \<in> set heap'. node_in_grid s' n" by simp_all
      have "markers_kept k (snd (ucs_loop heap' visited' costs' s'))"
        using True Inr cont inv' by (intro "1.IH") auto
      with True Inr cont show ?thesis by (subst ucs_loop.simps) simp
    qed
  qed
qed

subsection \<open>Bidirectional search keeps the markers\<close>

lemma bidir_neighbors_markers:
  assumes "bidir_neighbors forward nbs (queue, visited, s) = (queue', visited', s')"
    and "markers_kept k s"
    and "(if forward then start s else target s) \<in> dom visited"
    and "\<forall>n \<in> set queue. node_in_grid s n" and "\<forall>n \<in> ran visited. node_in_grid s n"
    and "\<forall>nb \<in> set nbs. list_all (in_grid s) (tl (parent_chain nb))"
  shows "markers_kept k s' \<and> (if forward then start s' else target s') \<in> dom visited' \<and>
     (\<forall>n \<in> set queue'. node_in_grid s' n) \<and> (\<forall>n \<in> ran visited'. node_in_grid s' n)"
  using assms
proof (induction nbs arbitrary: queue visited s)
  case Nil
  then show ?case by auto
next
  case (Cons nb nbs)
  show ?case
  proof (cases "visited (node_pos nb) = None \<and> is_valid_position s (node_x nb) (node_y nb)")
    case True
    let ?s1 = "if node_pos nb \<noteq> (if forward then target s else start s)
               then set_cell s (node_x nb) (node_y nb) FRONTIER else s"
    from True Cons.prems(1)
    have run: "bidir_neighbors forward nbs
        (queue @ [nb], visited(node_pos nb \<mapsto> nb), ?s1) = (queue', visited', s')"
      by (simp add: Let_def)
    have c1: "config ?s1 = config s" by simp
    from True have ig: "in_grid s (node_x nb, node_y nb)"
      using is_valid_position_in_grid by blast
    from True Cons.prems(3) have other: "node_pos nb \<noteq> (if forward then start s else target s)"
      by auto
    have m1: "markers_kept k ?s1"
    proof (cases "node_pos nb \<noteq> (if forward then target s else start s)")
      case True
      with other have "(node_x nb, node_y nb) \<noteq> start s" "(node_x nb, node_y nb) \<noteq> target s"
        by (auto simp add: node_pos_def split: if_splits)
      from markers_kept_set_cell [OF Cons.prems(2) ig this] True show ?thesis by simp
    next
      case False
      with Cons.prems(2) show ?thesis by simp
    qed
    have nbg: "node_in_grid s nb"
      using Cons.prems(5,6) ig by (intro node_in_grid_child) (simp_all add: node_pos_def)
    show ?thesis
    proof (rule Cons.IH [OF run m1])
      show "(if forward then start ?s1 else target ?s1) \<in> dom (visited(node_pos nb \<mapsto> nb))"
        using Cons.prems(3) config_eqD [OF c1] by auto
      show "\<forall>n \<in> set (queue @ [nb]). node_in_grid ?s1 n"
        using Cons.prems(4) nbg by (auto simp add: node_in_grid_config [OF c1])
      show "\<forall>n \<in> ran (visited(node_pos nb \<mapsto> nb)). node_in_grid ?s1 n"
        using Cons.prems(5) nbg True
        by (auto simp add: node_in_grid_config [OF c1] ran_def split: if_splits)
      show "\<forall>nb \<in> set nbs. list_all (in_grid ?s1) (tl (parent_chain nb))"
        using Cons.prems(6) by (simp add: list_all_iff in_grid_config [OF c1])
    qed
  next
    case False
    with Cons.prems(1)
    have run: "bidir_neighbors forward nbs (queue, visited, s) = (queue', visited', s')"
      by (auto simp add: Let_def)
    show ?thesis
      using Cons.prems(6) by (intro Cons.IH [OF run Cons.prems(2,3,4,5)]) simp
  qed
qed

lemma spliced_path_in_grid:
  assumes "node_in_grid s a" "node_in_grid s b"
  shows "list_all (in_grid s) (reconstruct_path a @ tl (rev (reconstruct_path b)))"
proof -
  have "set (tl (rev (reconstruct_path b))) \<subseteq> set (parent_chain b)"
    by (metis list.set_sel(2) rev_rev_ident set_rev reconstruct_path_def subsetI tl_Nil)
  with assms show ?thesis
    by (auto simp add: node_in_grid_def reconstruct_path_def list_all_iff)
qed

lemma forward_half_markers:
  assumes "markers_kept k s" "start s \<in> dom fv" "target s \<in> dom bv"
    "\<forall>n \<in> set fq. node_in_grid s n" "\<forall>n \<in> ran fv. node_in_grid s n"
    "\<forall>n \<in> ran bv. node_in_grid s n" "fq \<noteq> []"
  shows "case forward_half fq fv bv s of
           Inl (r, s') \<Rightarrow> markers_kept k s'
         | Inr (q, v, s') \<Rightarrow>
             markers_kept k s' \<and> config s' = config s \<and> start s' \<in> dom v \<and>
             (\<forall>n \<in> set q. node_in_grid s' n) \<and> (\<forall>n \<in> ran v. node_in_grid s' n)"
proof -
  let ?cur = "hd fq"
  from assms(4,7) have cur: "node_in_grid s ?cur" and rest: "\<forall>n \<in> set (tl fq). node_in_grid s n"
    by (simp_all add: list.set_sel(2))
  show ?thesis
  proof (cases "bv (node_pos ?cur)")
    case (Some other)
    then have "other \<in> ran bv" by (rule ranI)
    with assms(6) have "node_in_grid s other" by blast
    from markers_kept_visualize_path [OF assms(1) spliced_path_in_grid [OF cur this]] Some
    show ?thesis by (simp add: forward_half_def Let_def)
  next
    case None
    with assms(3) have nt: "node_pos ?cur \<noteq> target s" by auto
    let ?s1 = "if node_pos ?cur \<noteq> start s
               then set_cell s (node_x ?cur) (node_y ?cur) EXPLORED else s"
    have c1: "config ?s1 = config s" by simp
    have ig: "in_grid s (node_x ?cur, node_y ?cur)"
      using node_in_grid_pos [OF cur] by (simp add: node_pos_def)
    have m1: "markers_kept k ?s1"
      using assms(1) nt markers_kept_set_cell [OF assms(1) ig] by (simp add: node_pos_def)
    obtain q v s' where
      nb: "bidir_neighbors True (get_neighbors ?s1 ?cur) (tl fq, fv, ?s1) = (q, v, s')"
      by (cases "bidir_neighbors True (get_neighbors ?s1 ?cur) (tl fq, fv, ?s1)") auto
    have cur1: "node_in_grid ?s1 ?cur" using cur node_in_grid_config [OF c1] by simp
    have "markers_kept k s' \<and> (if True then start s' else target s') \<in> dom v \<and>
      (\<forall>n \<in> set q. node_in_grid s' n) \<and> (\<forall>n \<in> ran v. node_in_grid s' n)"
    proof (rule bidir_neighbors_markers [OF nb m1])
      show "(if True then start ?s1 else target ?s1) \<in> dom fv"
        using assms(2) config_eqD [OF c1] by simp
      show "\<forall>n \<in> set (tl fq). node_in_grid ?s1 n"
        using rest node_in_grid_config [OF c1] by simp
      show "\<forall>n \<in> ran fv. node_in_grid ?s1 n"
        using assms(5) node_in_grid_config [OF c1] by simp
      show "\<forall>nb \<in> set (get_neighbors ?s1 ?cur). list_all (in_grid ?s1) (tl (parent_chain nb))"
        using get_neighbors_in_grid [OF _ cur1] by simp
    qed
    moreover have "config s' = config s"
      using bidir_neighbors_progress [OF nb] c1 by simp
    ultimately show ?thesis using None nb
      by (simp add: forward_half_def Let_def)
  qed
qed

lemma backward_half_markers:
  assumes "markers_kept k s" "start s \<in> dom fv" "target s \<in> dom bv"
    "\<forall>n \<in> set bq. node_in_grid s n" "\<forall>n \<in> ran fv. node_in_grid s n"
    "\<forall>n \<in> ran bv. node_in_grid s n" "bq \<noteq> []"
  shows "case backward_half bq fv bv s of
           Inl (r, s') \<Rightarrow> markers_kept k s'
         | Inr (q, v, s') \<Rightarrow>
             markers_kept k s' \<and> config s' = config s \<and> target s' \<in> dom v \<and>
             (\<forall>n \<in> set q. node_in_grid s' n) \<and> (\<forall>n \<in> ran v. node_in_grid s' n)"
proof -
  let ?cur = "hd bq"
  from assms(4,7) have cur: "node_in_grid s ?cur" and rest: "\<forall>n \<in> set (tl bq). node_in_grid s n"
    by (simp_all add: list.set_sel(2))
  show ?thesis
  proof (cases "fv (node_pos ?cur)")
    case (Some other)
    then have "other \<in> ran fv" by (rule ranI)
    with assms(5) have "node_in_grid s other" by blast
    from markers_kept_visualize_path [OF assms(1) spliced_path_in_grid [OF this cur]] Some
    show ?thesis by (simp add: backward_half_def Let_def)
  next
    case None
    with assms(2) have nt: "node_pos ?cur \<noteq> start s" by auto
    let ?s1 = "if node_pos ?cur \<noteq> target s
               then set_cell s (node_x ?cur) (node_y ?cur) EXPLORED else s"
    have c1: "config ?s1 = config s" by simp
    have ig: "in_grid s (node_x ?cur, node_y ?cur)"
      using node_in_grid_pos [OF cur] by (simp add: node_pos_def)
    have m1: "markers_kept k ?s1"
      using assms(1) nt markers_kept_set_cell [OF assms(1) ig] by (simp add: node_pos_def)
    obtain q v s' where
      nb: "bidir_neighbors False (get_neighbors ?s1 ?cur) (tl bq, bv, ?s1) = (q, v, s')"
      by (cases "bidir_neighbors False (get_neighbors ?s1 ?cur) (tl bq, bv, ?s1)") auto
    have cur1: "node_in_grid ?s1 ?cur" using cur node_in_grid_config [OF c1] by simp
    have "markers_kept k s' \<and> (if False then start s' else target s') \<in> dom v \<and>
      (\<forall>n \<in> set q. node_in_grid s' n) \<and> (\<forall>n \<in> ran v. node_in_grid s' n)"
    proof (rule bidir_neighbors_markers [OF nb m1])
      show "(if False then start ?s1 else target ?s1) \<in> dom bv"
        using assms(3) config_eqD [OF c1] by simp
      show "\<forall>n \<in> set (tl bq). node_in_grid ?s1 n"
        using rest node_in_grid_config [OF c1] by simp
      show "\<forall>n \<in> ran bv. node_in_grid ?s1 n"
        using assms(6) node_in_grid_config [OF c1] by simp
      show "\<forall>nb \<in> set (get_neighbors ?s1 ?cur). list_all (in_grid ?s1) (tl (parent_chain nb))"
        using get_neighbors_in_grid [OF _ cur1] by simp
    qed
    moreover have "config s' = config s"
      using bidir_neighbors_progress [OF nb] c1 by simp
    ultimately show ?thesis using None nb
      by (simp add: backward_half_def Let_def)
  qed
qed


definition bidir_inv ::
  "nat \<Rightarrow> Node list \<Rightarrow> Node list \<Rightarrow> ((int \<times> int) \<rightharpoonup> Node) \<Rightarrow> ((int \<times> int) \<rightharpoonup> Node) \<Rightarrow>
   pathfinder \<Rightarrow> bool" where
  "bidir_inv k fq bq fv bv s \<longleftrightarrow>
     markers_kept k s \<and> start s \<in> dom fv \<and> target s \<in> dom bv \<and>
     (\<forall>n \<in> set fq \<union> set bq \<union> ran fv \<union> ran bv. node_in_grid s n)"

lemma bidir_inv_state:
  assumes "bidir_inv k fq bq fv bv s" "config s' = config s" "markers_kept k s'"
  shows "bidir_inv k fq bq fv bv s'"
  using assms config_eqD [OF assms(2)] node_in_grid_config [OF assms(2)]
  by (simp add: bidir_inv_def)

lemma bidir_iteration_markers:
  assumes "bidir_inv k fq bq fv bv s"
  shows "case bidir_iteration fq bq fv bv s of
           Inl (r, s') \<Rightarrow> markers_kept k s'
         | Inr (fq', bq', fv', bv', s') \<Rightarrow> bidir_inv k fq' bq' fv' bv' s'"
proof -
  let ?s1 = "snd (add_dynamic_obstacle s)"
  have i1: "bidir_inv k fq bq fv bv ?s1"
    using assms by (intro bidir_inv_state [OF assms] markers_kept_add_dynamic_obstacle)
      (simp_all add: bidir_inv_def)
  let ?F = "if fq \<noteq> [] then forward_half fq fv bv ?s1 else Inr (fq, fv, ?s1)"
  have F: "case ?F of Inl (r, s') \<Rightarrow> markers_kept k s'
     | Inr (q, v, s') \<Rightarrow> bidir_inv k q bq v bv s'"
  proof (cases "fq = []")
    case True
    with i1 show ?thesis by simp
  next
    case False
    from i1 have "case forward_half fq fv bv ?s1 of
           Inl (r, s') \<Rightarrow> markers_kept k s'
         | Inr (q, v, s') \<Rightarrow>
             markers_kept k s' \<and> config s' = config ?s1 \<and> start s' \<in> dom v \<and>
             (\<forall>n \<in> set q. node_in_grid s' n) \<and> (\<forall>n \<in> ran v. node_in_grid s' n)"
      by (intro forward_half_markers False) (simp_all add: bidir_inv_def)
    then have "case forward_half fq fv bv ?s1 of Inl (r, s') \<Rightarrow> markers_kept k s'
       | Inr (q, v, s') \<Rightarrow> bidir_inv k q bq v bv s'"
    proof (cases "forward_half fq fv bv ?s1")
      case (Inl res)
      assume "case forward_half fq fv bv ?s1 of
           Inl (r, s') \<Rightarrow> markers_kept k s'
         | Inr (q, v, s') \<Rightarrow>
             markers_kept k s' \<and> config s' = config ?s1 \<and> start s' \<in> dom v \<and>
             (\<forall>n \<in> set q. node_in_grid s' n) \<and> (\<forall>n \<in> ran v. node_in_grid s' n)"
      with Inl show ?thesis by simp
    next
      case (Inr c)
      assume a: "case forward_half fq fv bv ?s1 of
           Inl (r, s') \<Rightarrow> markers_kept k s'
         | Inr (q, v, s') \<Rightarrow>
             markers_kept k s' \<and> config s' = config ?s1 \<and> start s' \<in> dom v \<and>
             (\<forall>n \<in> set q. node_in_grid s' n) \<and> (\<forall>n \<in> ran v. node_in_grid s' n)"
      obtain q v s' where c: "c = (q, v, s')" by (cases c) auto
      from a Inr c have r: "markers_kept k s'" "config s' = config ?s1" "start s' \<in> dom v"
        "\<forall>n \<in> set q. node_in_grid s' n" "\<forall>n \<in> ran v. node_in_grid s' n"
        by simp_all
      from i1 config_eqD [OF r(2)] node_in_grid_config [OF r(2)] r
      have "bidir_inv k q bq v bv s'" by (auto simp add: bidir_inv_def)
      with Inr c show ?thesis by simp
    qed
    with False show ?thesis by simp
  qed
  show ?thesis
  proof (cases ?F)
    case (Inl res)
    with F show ?thesis by (simp add: bidir_iteration_def Let_def split: prod.splits)
  next
    case (Inr cont)
    obtain fq1 fv1 s2 where cont: "cont = (fq1, fv1, s2)" by (cases cont) auto
    from F Inr cont have i2: "bidir_inv k fq1 bq fv1 bv s2" by simp
    let ?B = "if bq \<noteq> [] then backward_half bq fv1 bv s2 else Inr (bq, bv, s2)"
    have B: "case ?B of Inl (r, s') \<Rightarrow> markers_kept k s'
       | Inr (q, v, s') \<Rightarrow> bidir_inv k fq1 q fv1 v s'"
    proof (cases "bq = []")
      case True
      with i2 show ?thesis by simp
    next
      case False
      from i2 have "case backward_half bq fv1 bv s2 of
             Inl (r, s') \<Rightarrow> markers_kept k s'
           | Inr (q, v, s') \<Rightarrow>
               markers_kept k s' \<and> config s' = config s2 \<and> target s' \<in> dom v \<and>
               (\<forall>n \<in> set q. node_in_grid s' n) \<and> (\<forall>n \<in> ran v. node_in_grid s' n)"
        by (intro backward_half_markers False) (simp_all add: bidir_inv_def)
      then have "case backward_half bq fv1 bv s2 of Inl (r, s') \<Rightarrow> markers_kept k s'
         | Inr (q, v, s') \<Rightarrow> bidir_inv k fq1 q fv1 v s'"
      proof (cases "backward_half bq fv1 bv s2")
        case (Inl res)
        assume "case backward_half bq fv1 bv s2 of
             Inl (r, s') \<Rightarrow> markers_kept k s'
           | Inr (q, v, s') \<Rightarrow>
               markers_kept k s' \<and> config s' = config s2 \<and> target s' \<in> dom v \<and>
               (\<forall>n \<in> set q. node_in_grid s' n) \<and> (\<forall>n \<in> ran v. node_in_grid s' n)"
        with Inl show ?thesis by simp
      next
        case (Inr c)
        assume a: "case backward_half bq fv1 bv s2 of
             Inl (r, s') \<Rightarrow> markers_kept k s'
           | Inr (q, v, s') \<Rightarrow>
               markers_kept k s' \<and> config s' = config s2 \<and> target s' \<in> dom v \<and>
               (\<forall>n \<in> set q. node_in_grid s' n) \<and> (\<forall>n \<in> ran v. node_in_grid s' n)"
        obtain q v s' where c: "c = (q, v, s')" by (cases c) auto
        from a Inr c have r: "markers_kept k s'" "config s' = config s2" "target s' \<in> dom v"
          "\<forall>n \<in> set q. node_in_grid s' n" "\<forall>n \<in> ran v. node_in_grid s' n"
          by simp_all
        from i2 config_eqD [OF r(2)] node_in_grid_config [OF r(2)] r
        have "bidir_inv k fq1 q fv1 v s'" by (auto simp add: bidir_inv_def)
        with Inr c show ?thesis by simp
      qed
      with False show ?thesis by simp
    qed
    show ?thesis
    proof (cases ?B)
      case (Inl res)
      with B Inr cont show ?thesis
        by (simp add: bidir_iteration_def Let_def split: prod.splits)
    next
      case (Inr cont2)
      obtain bq1 bv1 s3 where cont2: "cont2 = (bq1, bv1, s3)" by (cases cont2) auto
      from B Inr cont2 have i3: "bidir_inv k fq1 bq1 fv1 bv1 s3" by simp
      obtain ok s5 where ev: "handle_events_during_search (draw s3) = (ok, s5)"
        by (cases "handle_events_during_search (draw s3)") auto
      have s5: "s5 = snd (handle_events_during_search (draw s3))" using ev by simp
      have "bidir_inv k fq1 bq1 fv1 bv1 s5"
        unfolding s5 using i3
        by (intro bidir_inv_state [OF i3] markers_kept_handle_events markers_kept_draw)
           (simp_all add: bidir_inv_def)
      then show ?thesis
        using \<open>?F = Inr cont\<close> cont Inr cont2 ev
        by (simp add: bidir_iteration_def Let_def bidir_inv_def)
    qed
  qed
qed

lemma bidir_loop_markers:
  "bidir_inv k fq bq fv bv s \<Longrightarrow> markers_kept k (snd (bidir_loop fq bq fv bv s))"
proof (induction fq bq fv bv s rule: bidir_loop.induct)
  case (1 fq bq fv bv s)
  show ?case
  proof (cases "(fq \<noteq> [] \<or> bq \<noteq> []) \<and> \<not> paused s")
    case False
    with "1.prems" show ?thesis by (subst bidir_loop.simps) (auto simp add: bidir_inv_def)
  next
    case True
    note it = bidir_iteration_markers [OF "1.prems"]
    show ?thesis
    proof (cases "bidir_iteration fq bq fv bv s")
      case (Inl result)
      with it True show ?thesis
        by (subst bidir_loop.simps) (auto split: prod.splits)
    next
      case (Inr cont)
      obtain fq' bq' fv' bv' s' where cont: "cont = (fq', bq', fv', bv', s')"
        by (cases cont) auto
      from it Inr cont have inv': "bidir_inv k fq' bq' fv' bv' s'" by simp
      have "markers_kept k (snd (bidir_loop fq' bq' fv' bv' s'))"
        using True Inr cont inv' by (intro "1.IH") auto
      with True Inr cont show ?thesis by (subst bidir_loop.simps) simp
    qed
  qed
qed

subsection \<open>Depth-limited and iterative-deepening search keep the markers\<close>

lemma list_all_in_grid_config:
  "config a = config b \<Longrightarrow> list_all (in_grid a) ps = list_all (in_grid b) ps"
proof -
  assume "config a = config b"
  then have "in_grid a = in_grid b" by (intro ext) (simp add: in_grid_def config_def)
  then show ?thesis by simp
qed

lemma dls_markers:
  "config (snd (dls_recursive node depth visited path s)) = config s \<and>
   (markers_kept k s \<and> in_grid s (node_pos node) \<and>
    (node_pos node = start s \<or> start s \<in> visited) \<and> list_all (in_grid s) path \<longrightarrow>
    markers_kept k (snd (dls_recursive node depth visited path s)))"
  "config (snd (dls_neighbors nbs node depth visited path s)) = config s \<and>
   (markers_kept k s \<and> in_grid s (node_pos node) \<and> start s \<in> visited \<and>
    list_all (in_grid s) path \<longrightarrow>
    markers_kept k (snd (dls_neighbors nbs node depth visited path s)))"
proof (induction node depth visited path s and nbs node depth visited path s
    rule: dls_recursive_dls_neighbors.induct)
  case (1 node depth visited path s)
  let ?s1 = "snd (add_dynamic_obstacle s)"
  let ?pos = "node_pos node"
  have c1: "config ?s1 = config s" by simp
  show ?case
  proof (cases "depth < 0 \<or> paused s")
    case True
    then show ?thesis by (subst (1 2) dls_recursive.simps) simp
  next
    case False
    note run = False
    show ?thesis
    proof (cases "?pos = target ?s1")
      case True
      have res: "snd (dls_recursive node depth visited path s) =
          visualize_path ?s1 (path @ [?pos])"
        using run True by (subst dls_recursive.simps) (simp add: Let_def)
      have "markers_kept k (visualize_path ?s1 (path @ [?pos]))"
        if "markers_kept k s" "in_grid s ?pos" "list_all (in_grid s) path"
      proof (rule markers_kept_visualize_path)
        show "markers_kept k ?s1" using that(1) by (rule markers_kept_add_dynamic_obstacle)
        show "list_all (in_grid ?s1) (path @ [?pos])"
          using that(2,3) list_all_in_grid_config [OF c1] in_grid_config [OF c1] by simp
      qed
      then show ?thesis unfolding res by simp
    next
      case False
      let ?s2 = "if ?pos \<noteq> start ?s1
        then set_cell ?s1 (node_x node) (node_y node) EXPLORED else ?s1"
      let ?v1 = "insert ?pos visited"
      have c2: "config ?s2 = config s" by (simp add: c1)
      have res: "dls_recursive node depth visited path s =
          dls_neighbors (get_neighbors ?s2 node) node depth ?v1 path ?s2"
        using run False by (subst dls_recursive.simps) (simp add: Let_def)
      note ih = "1.IH" [OF run refl refl False refl refl]
      have "markers_kept k (snd (dls_neighbors (get_neighbors ?s2 node) node depth ?v1 path ?s2))"
        if a: "markers_kept k s" "in_grid s ?pos" "?pos = start s \<or> start s \<in> visited"
          "list_all (in_grid s) path"
      proof -
        have m1: "markers_kept k ?s1" using a(1) by (rule markers_kept_add_dynamic_obstacle)
        have ig: "in_grid ?s1 (node_x node, node_y node)"
          using a(2) in_grid_config [OF c1] by (simp add: node_pos_def)
        have m2: "markers_kept k ?s2"
          using m1 False markers_kept_set_cell [OF m1 ig] by (simp add: node_pos_def)
        moreover have "in_grid ?s2 ?pos" using a(2) in_grid_config [OF c2] by simp
        moreover have "start ?s2 \<in> ?v1" using a(3) config_eqD [OF c2] by auto
        moreover have "list_all (in_grid ?s2) path"
          using a(4) list_all_in_grid_config [OF c2] by simp
        ultimately show ?thesis using ih by blast
      qed
      with ih c2 show ?thesis unfolding res by simp
    qed
  qed
next
  case (2 node depth visited path s)
  show ?case by simp
next
  case (3 neighbor rest node depth visited path s)
  let ?np = "node_pos neighbor"
  show ?case
  proof (cases "?np \<notin> visited \<and> is_valid_position s (node_x neighbor) (node_y neighbor)")
    case False
    have res: "dls_neighbors (neighbor # rest) node depth visited path s =
        dls_neighbors rest node depth visited path s"
      using False by (auto simp add: Let_def)
    from "3.IH"(3) [OF refl False] show ?thesis unfolding res .
  next
    case True
    let ?s1 = "if ?np \<noteq> target s
      then set_cell s (node_x neighbor) (node_y neighbor) FRONTIER else s"
    let ?s2 = "draw ?s1"
    obtain ok s3 where ev: "handle_events_during_search ?s2 = (ok, s3)"
      by (cases "handle_events_during_search ?s2") auto
    have s3: "s3 = snd (handle_events_during_search ?s2)" using ev by simp
    have c3: "config s3 = config s" unfolding s3 by simp
    have m3: "markers_kept k s3" if a: "markers_kept k s" "start s \<in> visited"
    proof -
      from True a(2) have ns: "(node_x neighbor, node_y neighbor) \<noteq> start s"
        by (auto simp add: node_pos_def)
      from True have ig: "in_grid s (node_x neighbor, node_y neighbor)"
        using is_valid_position_in_grid by blast
      have "markers_kept k ?s1"
        using a(1) markers_kept_set_cell [OF a(1) ig ns] by (simp add: node_pos_def)
      then show ?thesis unfolding s3
        by (intro markers_kept_handle_events markers_kept_draw)
    qed
    show ?thesis
    proof (cases ok)
      case False
      have res: "dls_neighbors (neighbor # rest) node depth visited path s = (NotFound, s3)"
        using True ev False by (simp add: Let_def)
      show ?thesis unfolding res using c3 m3 by simp
    next
      case ok: True
      then have nn: "\<not> \<not> ok" by simp
      obtain r s4 where rec:
        "dls_recursive neighbor (depth - 1) visited (path @ [node_pos node]) s3 = (r, s4)"
        by (cases "dls_recursive neighbor (depth - 1) visited (path @ [node_pos node]) s3") auto
      have s4: "s4 = snd (dls_recursive neighbor (depth - 1) visited (path @ [node_pos node]) s3)"
        using rec by simp
      note ih1 = "3.IH"(1) [OF refl True refl refl refl ev [symmetric] nn]
      have c4: "config s4 = config s" unfolding s4 using ih1 c3 by simp
      have m4: "markers_kept k s4"
        if a: "markers_kept k s" "in_grid s (node_pos node)" "start s \<in> visited"
          "list_all (in_grid s) path"
      proof -
        have "in_grid s3 ?np"
          using True is_valid_position_in_grid [of s "node_x neighbor" "node_y neighbor"]
            in_grid_config [OF c3] by (simp add: node_pos_def)
        moreover have "list_all (in_grid s3) (path @ [node_pos node])"
          using a(2,4) list_all_in_grid_config [OF c3] in_grid_config [OF c3] by simp
        moreover have "start s3 \<in> visited" using a(3) config_eqD [OF c3] by simp
        ultimately show ?thesis unfolding s4 using ih1 m3 [OF a(1,3)] by blast
      qed
      show ?thesis
      proof (cases r)
        case (Found p)
        have res: "dls_neighbors (neighbor # rest) node depth visited path s = (Found p, s4)"
          using True ev ok rec Found by (simp add: Let_def)
        show ?thesis unfolding res using c4 m4 by simp
      next
        case NotFound
        have res: "dls_neighbors (neighbor # rest) node depth visited path s =
            dls_neighbors rest node depth visited path s4"
          using True ev ok rec NotFound by (simp add: Let_def)
        note ih2 = "3.IH"(2) [OF refl True refl refl refl ev [symmetric] nn rec [symmetric] NotFound]
        have "markers_kept k (snd (dls_neighbors rest node depth visited path s4))"
          if a: "markers_kept k s" "in_grid s (node_pos node)" "start s \<in> visited"
            "list_all (in_grid s) path"
        proof -
          have "in_grid s4 (node_pos node)" using a(2) in_grid_config [OF c4] by simp
          moreover have "start s4 \<in> visited" using a(3) config_eqD [OF c4] by simp
          moreover have "list_all (in_grid s4) path"
            using a(4) list_all_in_grid_config [OF c4] by simp
          ultimately show ?thesis using ih2 m4 [OF a] by blast
        qed
        with ih2 c4 show ?thesis unfolding res by simp
      qed
    qed
  qed
qed

lemma fold_set_cell_shape:
  "wf_grid s \<Longrightarrow>
   wf_grid (fold (\<lambda>(row, col) t. if P t row col then set_cell t row col v else t) ps s) \<and>
   config (fold (\<lambda>(row, col) t. if P t row col then set_cell t row col v else t) ps s) =
     config s \<and>
   frames (fold (\<lambda>(row, col) t. if P t row col then set_cell t row col v else t) ps s) =
     frames s"
proof (induction ps arbitrary: s)
  case Nil
  then show ?case by simp
next
  case (Cons p ps)
  obtain row col where p: "p = (row, col)" by (cases p) auto
  let ?t = "if P s row col then set_cell s row col v else s"
  have "wf_grid ?t" using Cons.prems wf_grid_set_cell by simp
  moreover have "config ?t = config s" by simp
  moreover have "frames ?t = frames s" by (simp add: set_cell_def)
  ultimately show ?case using Cons.IH [of ?t] by (simp add: p)
qed

lemma markers_kept_clear_search_visualization:
  assumes "wf_grid s" "k \<le> length (frames s)"
    "list_all (marked (start s) (target s)) (drop k (frames s))"
  shows "markers_kept k (clear_search_visualization s)"
proof -
  let ?P = "\<lambda>t row col. cell t row col = FRONTIER \<or> cell t row col = EXPLORED \<or>
     cell t row col = PATH"
  let ?s1 = "fold (\<lambda>(row, col) t. if ?P t row col then set_cell t row col EMPTY else t)
     (all_positions s) s"
  let ?s2 = "set_cell ?s1 (fst (start ?s1)) (snd (start ?s1)) START"
  let ?s3 = "set_cell ?s2 (fst (target ?s2)) (snd (target ?s2)) TARGET"
  have res: "clear_search_visualization s = ?s3"
    by (simp add: clear_search_visualization_def Let_def)
  from fold_set_cell_shape [OF assms(1), of ?P EMPTY "all_positions s"]
  have w1: "wf_grid ?s1" and c1: "config ?s1 = config s" and f1: "frames ?s1 = frames s"
    by blast+
  note e1 = config_eqD [OF c1]
  have w2: "wf_grid ?s2" using w1 by (rule wf_grid_set_cell)
  have w3: "wf_grid ?s3" using w2 by (rule wf_grid_set_cell)
  have st1: "in_grid ?s1 (fst (start s), snd (start s))"
    and tg1: "in_grid ?s1 (fst (target s), snd (target s))"
    using w1 e1 by (simp_all add: wf_grid_def)
  have s3: "?s3 = set_cell (set_cell ?s1 (fst (start s)) (snd (start s)) START)
      (fst (target s)) (snd (target s)) TARGET"
    using e1 by (simp add: set_cell_def)
  have cells: "cell ?s3 r c =
      (if (r, c) = target s then TARGET else if (r, c) = start s then START else cell ?s1 r c)"
    if "in_grid ?s1 (r, c)" for r c
    unfolding s3
    using cell_set_cell_twice [OF w1, of "start s" "target s" r c START TARGET] st1 tg1 that
    by simp
  have "cell ?s3 (fst (target s)) (snd (target s)) = TARGET"
    using cells [OF tg1] by simp
  moreover have "cell ?s3 (fst (start s)) (snd (start s)) = START" if "start s \<noteq> target s"
    using cells [OF st1] that by simp
  ultimately have m: "marked (start s) (target s) (grid ?s3)"
    by (simp add: marked_def cell_def)
  have fs: "frames ?s3 = frames s" "start ?s3 = start s" "target ?s3 = target s"
    using f1 e1 by (simp_all add: set_cell_def)
  show ?thesis
    unfolding res markers_kept_def fs using w3 m assms(2,3) by simp
qed

lemma depth_limited_search_markers:
  assumes "markers_kept k s"
  shows "markers_kept k (snd (depth_limited_search s depth_limit))"
proof -
  from assms have "in_grid s (start s)" by (simp add: markers_kept_def wf_grid_def)
  with assms dls_markers(1) [of "Node (fst (start s)) (snd (start s)) 0 None" depth_limit "{}"
      "[]" s k]
  show ?thesis by (simp add: depth_limited_search_def node_pos_def)
qed

lemma config_depth_limited_search:
  "config (snd (depth_limited_search s depth_limit)) = config s"
  using dls_markers(1) [of "Node (fst (start s)) (snd (start s)) 0 None" depth_limit "{}" "[]" s 0]
  by (simp add: depth_limited_search_def)

lemma iddfs_loop_markers:
  "markers_kept k s \<Longrightarrow> markers_kept k (snd (iddfs_loop depths s))"
proof (induction depths arbitrary: s)
  case Nil
  then show ?case by simp
next
  case (Cons depth later)
  let ?s1 = "s\<lparr>printed := printed s @ [IddfsDepth depth]\<rparr>"
  let ?s2 = "clear_search_visualization ?s1"
  from Cons.prems have "markers_kept k ?s1"
    by (simp add: markers_kept_def wf_grid_def in_grid_def)
  then have "markers_kept k ?s2"
    by (intro markers_kept_clear_search_visualization) (simp_all add: markers_kept_def)
  then have m3: "markers_kept k (snd (depth_limited_search ?s2 depth))"
    by (rule depth_limited_search_markers)
  obtain r s3 where d: "depth_limited_search ?s2 depth = (r, s3)"
    by (cases "depth_limited_search ?s2 depth") auto
  with m3 have m: "markers_kept k s3" by simp
  show ?case
  proof (cases r)
    case (Found p)
    with d m show ?thesis by (simp add: Let_def)
  next
    case NotFound
    with d m Cons.IH [OF m] show ?thesis by (simp add: Let_def)
  qed
qed

section \<open>Claim C10: the markers stay in place\<close>

text \<open>
  Claim C10. Start from a well-formed state whose grid shows the two markers (Target
  at the target position and, when the positions differ, Start at the start position).
  Whichever of the six strategies runs, whatever the random draws and the events, the
  final grid and every frame drawn during the run (the frames of the path animation
  included) show the markers still: no write of Frontier, Explored, Path or
  DynamicObstacle lands on the start or the target cell.
\<close>

theorem markers_retained_throughout:
  assumes "wf_grid s" and "marked (start s) (target s) (grid s)"
  shows "markers_kept (length (frames s)) (snd (breadth_first_search s)) \<and>
         markers_kept (length (frames s)) (snd (depth_first_search s)) \<and>
         markers_kept (length (frames s)) (snd (uniform_cost_search s)) \<and>
         markers_kept (length (frames s)) (snd (depth_limited_search s depth_limit)) \<and>
         markers_kept (length (frames s)) (snd (iterative_deepening_dfs s)) \<and>
         markers_kept (length (frames s)) (snd (bidirectional_search s))"
proof -
  let ?k = "length (frames s)"
  let ?n = "Node (fst (start s)) (snd (start s)) 0 None"
  let ?t = "Node (fst (target s)) (snd (target s)) 0 None"
  from assms have m: "markers_kept ?k s" by (simp add: markers_kept_def)
  have n: "node_in_grid s ?n" using assms(1) by (rule start_node_in_grid)
  have t: "node_in_grid s ?t" using assms(1) by (simp add: node_in_grid_def wf_grid_def)
  have "markers_kept ?k (snd (breadth_first_search s))"
    unfolding breadth_first_search_def Let_def
    using m n by (intro bfs_loop_markers) (simp_all add: node_pos_def)
  moreover have "markers_kept ?k (snd (depth_first_search s))"
    unfolding depth_first_search_def Let_def
    using m n by (intro dfs_loop_markers) (simp_all add: node_pos_def)
  moreover have "markers_kept ?k (snd (uniform_cost_search s))"
    unfolding uniform_cost_search_def Let_def
    using m n by (intro ucs_loop_markers) (simp_all add: node_pos_def)
  moreover have "markers_kept ?k (snd (depth_limited_search s depth_limit))"
    using m by (rule depth_limited_search_markers)
  moreover have "markers_kept ?k (snd (iterative_deepening_dfs s))"
    unfolding iterative_deepening_dfs_def using m by (rule iddfs_loop_markers)
  moreover have "markers_kept ?k (snd (bidirectional_search s))"
    unfolding bidirectional_search_def Let_def
    using m n t by (intro bidir_loop_markers) (simp add: bidir_inv_def node_pos_def)
  ultimately show ?thesis by blast
qed

theorem markers_retained_throughout_witness:
  "markers_kept 0 (snd (breadth_first_search state3)) \<and>
   markers_kept 0 (snd (depth_first_search state3)) \<and>
   markers_kept 0 (snd (uniform_cost_search state3)) \<and>
   markers_kept 0 (snd (depth_limited_search state3 15)) \<and>
   markers_kept 0 (snd (iterative_deepening_dfs state3)) \<and>
   markers_kept 0 (snd (bidirectional_search state3))"
proof -
  have h: "wf_grid state3" "marked (start state3) (target state3) (grid state3)"
    by code_simp+
  have f: "length (frames state3) = 0" by code_simp
  from markers_retained_throughout [OF h, of 15] show ?thesis unfolding f .
qed

section \<open>Frontier cells and the obstacle injector\<close>





lemma wf_grid_cong: "config a = config b \<Longrightarrow> grid a = grid b \<Longrightarrow> wf_grid a = wf_grid b"
  by (simp add: wf_grid_def in_grid_def config_def)










subsection \<open>The loops over the neighbours\<close>





subsection \<open>One iteration of each loop\<close>













section \<open>Claim C4: frontier cells and dynamic obstacles\<close>






section \<open>The path assembled by bidirectional search\<close>

text \<open>Two positions one move apart, along a row, a column or a diagonal.\<close>

definition eight_connected :: "int \<times> int \<Rightarrow> int \<times> int \<Rightarrow> bool" where
  "eight_connected p q \<longleftrightarrow> p \<noteq> q \<and> \<bar>fst q - fst p\<bar> \<le> 1 \<and> \<bar>snd q - snd p\<bar> \<le> 1"

lemma eight_connected_sym: "eight_connected p q = eight_connected q p"
  by (auto simp add: eight_connected_def)

lemma directions_eight_connected:
  "d \<in> set directions \<Longrightarrow> eight_connected (x + fst d, y + snd d) (x, y)"
  by (auto simp add: directions_def eight_connected_def)











lemma get_neighbors_children:
  "\<forall>nb \<in> set (get_neighbors s cur). node_parent nb = Some cur \<and>
     eight_connected (node_pos nb) (node_pos cur)"
proof
  fix nb
  assume "nb \<in> set (get_neighbors s cur)"
  from get_neighbors_member [OF this] obtain d where "node_parent nb = Some cur"
    "d \<in> set directions" "node_pos nb = (node_x cur + fst d, node_y cur + snd d)"
    by blast
  with directions_eight_connected [of d "node_x cur" "node_y cur"]
  show "node_parent nb = Some cur \<and> eight_connected (node_pos nb) (node_pos cur)"
    by (simp add: node_pos_def)
qed











section \<open>Claim C6: the path of bidirectional search\<close>





section \<open>Depth-limited search with the obstacle injector switched off\<close>

definition passable :: "pathfinder \<Rightarrow> int \<times> int \<Rightarrow> bool" where
  "passable s p \<longleftrightarrow> is_valid_position s (fst p) (snd p)"

text \<open>
  A state of a run without dynamic obstacles, seen from the passable positions \<open>ok\<close> of
  the state the run began in: they are the passable positions still.
\<close>

definition steady :: "(int \<times> int \<Rightarrow> bool) \<Rightarrow> pathfinder \<Rightarrow> bool" where
  "steady ok s \<longleftrightarrow>
     wf_grid s \<and> \<not> enable_dynamic_obstacles s \<and> (\<forall>p. passable s p = ok p)"

text \<open>No pause is set and no batch of events holds a window close or a space key.\<close>

definition undisturbed :: "pathfinder \<Rightarrow> bool" where
  "undisturbed s \<longleftrightarrow>
     \<not> paused s \<and> list_all (list_all (\<lambda>e. e = OTHER_EVENT)) (event_queue s)"

lemma add_dynamic_obstacle_disabled:
  "\<not> enable_dynamic_obstacles s \<Longrightarrow> add_dynamic_obstacle s = (False, s)"
  by (simp add: add_dynamic_obstacle_def)

lemma steadyD:
  assumes "steady ok s"
  shows "wf_grid s" "\<not> enable_dynamic_obstacles s" "passable s p = ok p"
    "snd (add_dynamic_obstacle s) = s"
proof -
  from assms show "wf_grid s" "\<not> enable_dynamic_obstacles s" "passable s p = ok p"
    unfolding steady_def by blast+
  then show "snd (add_dynamic_obstacle s) = s"
    by (simp add: add_dynamic_obstacle_disabled)
qed

lemma passable_cong:
  "config a = config b \<Longrightarrow> grid a = grid b \<Longrightarrow> passable a p = passable b p"
  by (simp add: passable_def is_valid_position_def cell_def config_def)

lemma steady_cong:
  assumes "config a = config b" "grid a = grid b"
  shows "steady ok a = steady ok b"
proof -
  have "wf_grid a = wf_grid b" using assms by (rule wf_grid_cong)
  moreover have "passable a = passable b"
    using passable_cong [OF assms] by (intro ext)
  moreover have "enable_dynamic_obstacles a = enable_dynamic_obstacles b"
    using config_eqD [OF assms(1)] by simp
  ultimately show ?thesis by (simp add: steady_def)
qed

lemma steady_set_cell:
  assumes "steady ok s" "ok (row, col)" "v \<noteq> WALL" "v \<noteq> DYNAMIC_OBSTACLE"
  shows "steady ok (set_cell s row col v)"
proof -
  note st = steadyD [OF assms(1)]
  from assms(2) st(3) [of "(row, col)"] have valid: "is_valid_position s row col"
    by (simp add: passable_def)
  then have ig: "in_grid s (row, col)" by (rule is_valid_position_in_grid)
  have "passable (set_cell s row col v) p = ok p" for p
  proof (cases "in_grid s (fst p, snd p)")
    case True
    from cell_set_cell [OF st(1) ig True, of v]
    have c: "cell (set_cell s row col v) (fst p) (snd p) =
        (if (fst p, snd p) = (row, col) then v else cell s (fst p) (snd p))" .
    show ?thesis
    proof (cases "(fst p, snd p) = (row, col)")
      case eq: True
      then have "p = (row, col)" by (cases p) simp
      with c eq True assms(2,3,4) show ?thesis
        by (simp add: passable_def is_valid_position_def in_grid_def set_cell_def)
    next
      case False
      with c have "passable (set_cell s row col v) p = passable s p"
        by (simp add: passable_def is_valid_position_def set_cell_def)
      with st(3) show ?thesis by simp
    qed
  next
    case False
    then have "\<not> passable (set_cell s row col v) p" "\<not> passable s p"
      by (auto simp add: passable_def is_valid_position_def in_grid_def set_cell_def)
    with st(3) [of p] show ?thesis by simp
  qed
  with wf_grid_set_cell [OF st(1)] st(2) show ?thesis
    by (simp add: steady_def set_cell_def)
qed

lemma steady_events:
  "steady ok s \<Longrightarrow> steady ok (snd (handle_events_during_search (draw s)))"
proof -
  assume a: "steady ok s"
  have "grid (draw s) = grid s" by (simp add: draw_def)
  then have "steady ok (snd (handle_events_during_search (draw s))) = steady ok s"
    by (intro steady_cong) simp_all
  with a show ?thesis by simp
qed

lemma process_events_other:
  "list_all (\<lambda>e. e = OTHER_EVENT) es \<Longrightarrow> process_events es s = (True, s)"
  by (induction es) simp_all

lemma undisturbed_cong: "pending a = pending b \<Longrightarrow> undisturbed a = undisturbed b"
  by (simp add: undisturbed_def pending_def)

lemma undisturbed_events:
  assumes "undisturbed s"
  shows "fst (handle_events_during_search (draw s))"
    and "undisturbed (snd (handle_events_during_search (draw s)))"
proof -
  have e: "event_queue (draw s) = event_queue s" "paused (draw s) = paused s"
    by (simp_all add: draw_def)
  show "fst (handle_events_during_search (draw s))"
    using assms e
    by (cases "event_queue s")
       (simp_all add: handle_events_during_search_def undisturbed_def process_events_other)
  show "undisturbed (snd (handle_events_during_search (draw s)))"
    using assms e
    by (cases "event_queue s")
       (simp_all add: handle_events_during_search_def undisturbed_def process_events_other
          draw_def)
qed

text \<open>
  A call that does not find the target leaves a steady, undisturbed state behind: it has
  written Explored and Frontier on passable cells only.
\<close>

lemma dls_steady:
  "steady ok s \<and> (node_pos node = start s \<or> ok (node_pos node)) \<and>
   fst (dls_recursive node depth visited path s) = NotFound \<longrightarrow>
   steady ok (snd (dls_recursive node depth visited path s)) \<and>
   (undisturbed s \<longrightarrow> undisturbed (snd (dls_recursive node depth visited path s)))"
  "steady ok s \<and> fst (dls_neighbors nbs node depth visited path s) = NotFound \<longrightarrow>
   steady ok (snd (dls_neighbors nbs node depth visited path s)) \<and>
   (undisturbed s \<longrightarrow> undisturbed (snd (dls_neighbors nbs node depth visited path s)))"
proof (induction node depth visited path s and nbs node depth visited path s
    rule: dls_recursive_dls_neighbors.induct)
  case (1 node depth visited path s)
  let ?s1 = "snd (add_dynamic_obstacle s)"
  let ?pos = "node_pos node"
  show ?case
  proof (cases "depth < 0 \<or> paused s")
    case True
    then show ?thesis by (subst (1 2 3) dls_recursive.simps) simp
  next
    case False
    note run = False
    show ?thesis
    proof (cases "?pos = target ?s1")
      case True
      have "fst (dls_recursive node depth visited path s) \<noteq> NotFound"
        using run True by (subst dls_recursive.simps) (simp add: Let_def)
      then show ?thesis by simp
    next
      case False
      let ?s2 = "if ?pos \<noteq> start ?s1
        then set_cell ?s1 (node_x node) (node_y node) EXPLORED else ?s1"
      let ?v1 = "insert ?pos visited"
      have res: "dls_recursive node depth visited path s =
          dls_neighbors (get_neighbors ?s2 node) node depth ?v1 path ?s2"
        using run False by (subst dls_recursive.simps) (simp add: Let_def)
      note ih = "1.IH" [OF run refl refl False refl refl]
      have p2: "pending ?s2 = pending s" by simp
      show ?thesis
      proof (intro impI)
        assume a: "steady ok s \<and> (?pos = start s \<or> ok ?pos) \<and>
          fst (dls_recursive node depth visited path s) = NotFound"
        then have st: "steady ok s" by simp
        have s1: "?s1 = s" using steadyD(4) [OF st] .
        have "steady ok ?s2"
          using a steady_set_cell [OF st, of "node_x node" "node_y node" EXPLORED]
          by (auto simp add: s1 node_pos_def)
        with a ih undisturbed_cong [OF p2] show "steady ok (snd (dls_recursive node depth visited path s)) \<and>
          (undisturbed s \<longrightarrow> undisturbed (snd (dls_recursive node depth visited path s)))"
          unfolding res by simp
      qed
    qed
  qed
next
  case (2 node depth visited path s)
  show ?case by simp
next
  case (3 neighbor rest node depth visited path s)
  let ?np = "node_pos neighbor"
  show ?case
  proof (cases "?np \<notin> visited \<and> is_valid_position s (node_x neighbor) (node_y neighbor)")
    case False
    have res: "dls_neighbors (neighbor # rest) node depth visited path s =
        dls_neighbors rest node depth visited path s"
      using False by (auto simp add: Let_def)
    from "3.IH"(3) [OF refl False] show ?thesis unfolding res .
  next
    case True
    let ?s1 = "if ?np \<noteq> target s
      then set_cell s (node_x neighbor) (node_y neighbor) FRONTIER else s"
    let ?s2 = "draw ?s1"
    obtain okay s3 where ev: "handle_events_during_search ?s2 = (okay, s3)"
      by (cases "handle_events_during_search ?s2") auto
    have s3: "s3 = snd (handle_events_during_search ?s2)" using ev by simp
    have c3: "config s3 = config s" unfolding s3 by simp
    have p1: "pending ?s1 = pending s" by simp
    have st3: "steady ok s3 \<and> ok ?np" if st: "steady ok s"
    proof -
      from True steadyD(3) [OF st, of ?np] have o: "ok (node_x neighbor, node_y neighbor)"
        by (simp add: passable_def node_pos_def)
      then have "steady ok ?s1"
        using st steady_set_cell [OF st o, of FRONTIER] by simp
      then show ?thesis unfolding s3 using o by (simp add: steady_events node_pos_def)
    qed
    have u3: "undisturbed s3" if "undisturbed s"
      unfolding s3 using that undisturbed_cong [OF p1] by (intro undisturbed_events(2)) simp
    show ?thesis
    proof (cases okay)
      case False
      have res: "dls_neighbors (neighbor # rest) node depth visited path s = (NotFound, s3)"
        using True ev False by (simp add: Let_def)
      show ?thesis unfolding res using st3 u3 by simp
    next
      case okay: True
      then have nn: "\<not> \<not> okay" by simp
      obtain r s4 where rec:
        "dls_recursive neighbor (depth - 1) visited (path @ [node_pos node]) s3 = (r, s4)"
        by (cases "dls_recursive neighbor (depth - 1) visited (path @ [node_pos node]) s3") auto
      note ih1 = "3.IH"(1) [OF refl True refl refl refl ev [symmetric] nn]
      show ?thesis
      proof (cases r)
        case (Found p)
        have res: "dls_neighbors (neighbor # rest) node depth visited path s = (Found p, s4)"
          using True ev okay rec Found by (simp add: Let_def)
        show ?thesis unfolding res by simp
      next
        case NotFound
        have res: "dls_neighbors (neighbor # rest) node depth visited path s =
            dls_neighbors rest node depth visited path s4"
          using True ev okay rec NotFound by (simp add: Let_def)
        note ih2 = "3.IH"(2) [OF refl True refl refl refl ev [symmetric] nn rec [symmetric] NotFound]
        have st4: "steady ok s4 \<and> (undisturbed s \<longrightarrow> undisturbed s4)" if st: "steady ok s"
          using ih1 rec NotFound st3 [OF st] u3 by simp
        show ?thesis unfolding res using ih2 st4 by blast
      qed
    qed
  qed
qed


subsection \<open>A path returned is a passable route within the limit\<close>

lemma dls_sound:
  "steady ok s \<and> (node_pos node = start s \<or> ok (node_pos node)) \<and>
   fst (dls_recursive node depth visited path s) = Found p \<longrightarrow>
   (\<exists>cs. p = path @ node_pos node # cs \<and> int (length cs) \<le> depth \<and> list_all ok cs \<and>
      successively eight_connected (node_pos node # cs) \<and>
      last (node_pos node # cs) = target s)"
  "steady ok s \<and> (\<forall>nb \<in> set nbs. eight_connected (node_pos node) (node_pos nb)) \<and>
   fst (dls_neighbors nbs node depth visited path s) = Found p \<longrightarrow>
   (\<exists>c cs. p = path @ node_pos node # c # cs \<and> int (length cs) + 1 \<le> depth \<and>
      list_all ok (c # cs) \<and> successively eight_connected (node_pos node # c # cs) \<and>
      last (c # cs) = target s)"
proof (induction node depth visited path s and nbs node depth visited path s
    rule: dls_recursive_dls_neighbors.induct)
  case (1 node depth visited path s)
  let ?s1 = "snd (add_dynamic_obstacle s)"
  let ?pos = "node_pos node"
  show ?case
  proof (cases "depth < 0 \<or> paused s")
    case True
    then show ?thesis by (subst dls_recursive.simps) simp
  next
    case False
    note run = False
    show ?thesis
    proof (cases "?pos = target ?s1")
      case True
      have res: "fst (dls_recursive node depth visited path s) = Found (path @ [?pos])"
        using run True by (subst dls_recursive.simps) (simp add: Let_def)
      show ?thesis
      proof (intro impI)
        assume a: "steady ok s \<and> (?pos = start s \<or> ok ?pos) \<and>
          fst (dls_recursive node depth visited path s) = Found p"
        then have "?s1 = s" using steadyD(4) by blast
        with a res True run
        have "p = path @ ?pos # [] \<and> int (length ([] :: (int \<times> int) list)) \<le> depth \<and>
          list_all ok [] \<and> successively eight_connected (?pos # []) \<and>
          last (?pos # []) = target s"
          by simp
        then show "\<exists>cs. p = path @ ?pos # cs \<and> int (length cs) \<le> depth \<and> list_all ok cs \<and>
          successively eight_connected (?pos # cs) \<and> last (?pos # cs) = target s"
          by blast
      qed
    next
      case False
      let ?s2 = "if ?pos \<noteq> start ?s1
        then set_cell ?s1 (node_x node) (node_y node) EXPLORED else ?s1"
      let ?v1 = "insert ?pos visited"
      have res: "dls_recursive node depth visited path s =
          dls_neighbors (get_neighbors ?s2 node) node depth ?v1 path ?s2"
        using run False by (subst dls_recursive.simps) (simp add: Let_def)
      note ih = "1.IH" [OF run refl refl False refl refl]
      have c2: "config ?s2 = config s" by simp
      show ?thesis
      proof (intro impI)
        assume a: "steady ok s \<and> (?pos = start s \<or> ok ?pos) \<and>
          fst (dls_recursive node depth visited path s) = Found p"
        then have st: "steady ok s" by simp
        have s1: "?s1 = s" using steadyD(4) [OF st] .
        have st2: "steady ok ?s2"
          using a steady_set_cell [OF st, of "node_x node" "node_y node" EXPLORED]
          by (auto simp add: s1 node_pos_def)
        have adj: "\<forall>nb \<in> set (get_neighbors ?s2 node). eight_connected ?pos (node_pos nb)"
          using get_neighbors_children [of ?s2 node] eight_connected_sym by blast
        from ih st2 adj a have "\<exists>c cs. p = path @ ?pos # c # cs \<and> int (length cs) + 1 \<le> depth \<and>
          list_all ok (c # cs) \<and> successively eight_connected (?pos # c # cs) \<and>
          last (c # cs) = target ?s2"
          unfolding res by blast
        then obtain c cs where r: "p = path @ ?pos # c # cs" "int (length cs) + 1 \<le> depth"
          "list_all ok (c # cs)" "successively eight_connected (?pos # c # cs)"
          "last (c # cs) = target ?s2" by blast
        have "p = path @ ?pos # (c # cs) \<and> int (length (c # cs)) \<le> depth \<and>
          list_all ok (c # cs) \<and> successively eight_connected (?pos # (c # cs)) \<and>
          last (?pos # (c # cs)) = target s"
          using r config_eqD [OF c2] by simp
        then show "\<exists>cs. p = path @ ?pos # cs \<and> int (length cs) \<le> depth \<and> list_all ok cs \<and>
          successively eight_connected (?pos # cs) \<and> last (?pos # cs) = target s"
          by blast
      qed
    qed
  qed
next
  case (2 node depth visited path s)
  show ?case by simp
next
  case (3 neighbor rest node depth visited path s)
  let ?np = "node_pos neighbor"
  show ?case
  proof (cases "?np \<notin> visited \<and> is_valid_position s (node_x neighbor) (node_y neighbor)")
    case False
    have res: "dls_neighbors (neighbor # rest) node depth visited path s =
        dls_neighbors rest node depth visited path s"
      using False by (auto simp add: Let_def)
    from "3.IH"(3) [OF refl False] show ?thesis unfolding res by simp
  next
    case True
    let ?s1 = "if ?np \<noteq> target s
      then set_cell s (node_x neighbor) (node_y neighbor) FRONTIER else s"
    let ?s2 = "draw ?s1"
    obtain okay s3 where ev: "handle_events_during_search ?s2 = (okay, s3)"
      by (cases "handle_events_during_search ?s2") auto
    have s3: "s3 = snd (handle_events_during_search ?s2)" using ev by simp
    have c3: "config s3 = config s" unfolding s3 by simp
    have st3: "steady ok s3 \<and> ok ?np" if st: "steady ok s"
    proof -
      from True steadyD(3) [OF st, of ?np] have o: "ok (node_x neighbor, node_y neighbor)"
        by (simp add: passable_def node_pos_def)
      then have "steady ok ?s1"
        using st steady_set_cell [OF st o, of FRONTIER] by simp
      then show ?thesis unfolding s3 using o by (simp add: steady_events node_pos_def)
    qed
    show ?thesis
    proof (cases okay)
      case False
      have res: "dls_neighbors (neighbor # rest) node depth visited path s = (NotFound, s3)"
        using True ev False by (simp add: Let_def)
      show ?thesis unfolding res by simp
    next
      case okay: True
      then have nn: "\<not> \<not> okay" by simp
      obtain r s4 where rec:
        "dls_recursive neighbor (depth - 1) visited (path @ [node_pos node]) s3 = (r, s4)"
        by (cases "dls_recursive neighbor (depth - 1) visited (path @ [node_pos node]) s3") auto
      note ih1 = "3.IH"(1) [OF refl True refl refl refl ev [symmetric] nn]
      show ?thesis
      proof (cases r)
        case (Found p')
        have res: "dls_neighbors (neighbor # rest) node depth visited path s = (Found p', s4)"
          using True ev okay rec Found by (simp add: Let_def)
        show ?thesis
        proof (intro impI)
          assume a: "steady ok s \<and>
            (\<forall>nb \<in> set (neighbor # rest). eight_connected (node_pos node) (node_pos nb)) \<and>
            fst (dls_neighbors (neighbor # rest) node depth visited path s) = Found p"
          then have st: "steady ok s" and e: "eight_connected (node_pos node) ?np"
            and pp: "p' = p" using res by simp_all
          from ih1 st3 [OF st] rec Found pp
          have "\<exists>cs. p = (path @ [node_pos node]) @ ?np # cs \<and> int (length cs) \<le> depth - 1 \<and>
            list_all ok cs \<and> successively eight_connected (?np # cs) \<and>
            last (?np # cs) = target s3"
            by simp
          then obtain cs where r: "p = (path @ [node_pos node]) @ ?np # cs"
            "int (length cs) \<le> depth - 1" "list_all ok cs"
            "successively eight_connected (?np # cs)" "last (?np # cs) = target s3" by blast
          have "p = path @ node_pos node # ?np # cs \<and> int (length cs) + 1 \<le> depth \<and>
            list_all ok (?np # cs) \<and> successively eight_connected (node_pos node # ?np # cs) \<and>
            last (?np # cs) = target s"
            using r e st3 [OF st] config_eqD [OF c3] by simp
          then show "\<exists>c cs. p = path @ node_pos node # c # cs \<and> int (length cs) + 1 \<le> depth \<and>
            list_all ok (c # cs) \<and> successively eight_connected (node_pos node # c # cs) \<and>
            last (c # cs) = target s"
            by blast
        qed
      next
        case NotFound
        have res: "dls_neighbors (neighbor # rest) node depth visited path s =
            dls_neighbors rest node depth visited path s4"
          using True ev okay rec NotFound by (simp add: Let_def)
        note ih2 = "3.IH"(2) [OF refl True refl refl refl ev [symmetric] nn rec [symmetric] NotFound]
        have s4: "s4 = snd (dls_recursive neighbor (depth - 1) visited (path @ [node_pos node]) s3)"
          using rec by simp
        have c4: "config s4 = config s" unfolding s4 using dls_markers(1) [where k = 0] c3 by simp
        have st4: "steady ok s4" if st: "steady ok s"
          using dls_steady(1) [of ok s3 neighbor "depth - 1" visited "path @ [node_pos node]"]
            rec NotFound st3 [OF st] by simp
        show ?thesis unfolding res using ih2 st4 config_eqD [OF c4] by simp
      qed
    qed
  qed
qed


subsection \<open>A passable route within the limit is found\<close>

lemma eight_connected_direction:
  assumes "eight_connected p q"
  shows "(fst q - fst p, snd q - snd p) \<in> set directions"
proof -
  from assms have "fst q - fst p = -1 \<or> fst q - fst p = 0 \<or> fst q - fst p = 1"
    "snd q - snd p = -1 \<or> snd q - snd p = 0 \<or> snd q - snd p = 1"
    by (auto simp add: eight_connected_def)
  moreover from assms have "\<not> (fst q - fst p = 0 \<and> snd q - snd p = 0)"
    by (cases p, cases q) (auto simp add: eight_connected_def)
  ultimately show ?thesis
    by (auto simp add: directions_def)
qed

lemma get_neighbors_complete:
  assumes "is_valid_position s (fst c) (snd c)" "eight_connected (node_pos n) c"
  shows "\<exists>nb \<in> set (get_neighbors s n). node_pos nb = c"
proof -
  let ?d = "(fst c - node_x n, snd c - node_y n)"
  let ?nb = "Node (fst c) (snd c) (node_cost n + step_cost ?d) (Some n)"
  from eight_connected_direction [OF assms(2)] have d: "?d \<in> set directions"
    by (simp add: node_pos_def)
  have "?nb \<in> set (case ?d of (dr, dc) \<Rightarrow>
       let new_row = node_x n + dr; new_col = node_y n + dc in
       if is_valid_position s new_row new_col
       then [Node new_row new_col (node_cost n + step_cost (dr, dc)) (Some n)]
       else [])"
    using assms(1) by (simp add: Let_def)
  with d have "?nb \<in> set (get_neighbors s n)"
    unfolding get_neighbors_def set_concat set_map by blast
  moreover have "node_pos ?nb = c" by (simp add: node_pos_def)
  ultimately show ?thesis by blast
qed

text \<open>
  A route that leaves a position and ends elsewhere has a last departure from it: what
  follows is a route from a neighbour that does not come back.
\<close>

lemma route_step:
  assumes "successively eight_connected (pos # cs)" "last (pos # cs) \<noteq> pos"
  shows "\<exists>c cs'. eight_connected pos c \<and> set (c # cs') \<subseteq> set cs \<and> pos \<notin> set (c # cs') \<and>
     length cs' < length cs \<and> successively eight_connected (c # cs') \<and>
     last (c # cs') = last (pos # cs)"
proof (cases "pos \<in> set cs")
  case True
  from split_list_last [OF True] obtain ys zs where cs: "cs = ys @ pos # zs"
    and nz: "pos \<notin> set zs" by blast
  from assms(2) cs have "zs \<noteq> []" by auto
  then obtain c cs' where zs: "zs = c # cs'" by (cases zs) auto
  have "successively eight_connected ((pos # ys) @ (pos # c # cs'))"
    using assms(1) cs zs by simp
  then have "successively eight_connected (pos # c # cs')"
    unfolding successively_append_iff by blast
  then have "eight_connected pos c" "successively eight_connected (c # cs')" by simp_all
  moreover have "last (c # cs') = last (pos # cs)" using cs zs by simp
  moreover have "set (c # cs') \<subseteq> set cs" "length cs' < length cs" using cs zs by auto
  moreover have "pos \<notin> set (c # cs')" using nz zs by simp
  ultimately show ?thesis by blast
next
  case False
  from assms(2) have "cs \<noteq> []" by auto
  then obtain c cs' where cs: "cs = c # cs'" by (cases cs) auto
  from assms(1) cs have "eight_connected pos c" "successively eight_connected (c # cs')"
    by simp_all
  moreover have "last (c # cs') = last (pos # cs)" using cs by simp
  moreover have "set (c # cs') \<subseteq> set cs" "length cs' < length cs" using cs by auto
  moreover have "pos \<notin> set (c # cs')" using False cs by simp
  ultimately show ?thesis by blast
qed

definition leads ::
  "(int \<times> int \<Rightarrow> bool) \<Rightarrow> (int \<times> int) set \<Rightarrow> int \<times> int \<Rightarrow> int \<Rightarrow> int \<times> int \<Rightarrow>
   (int \<times> int) list \<Rightarrow> bool" where
  "leads ok visited goal depth pos cs \<longleftrightarrow>
     int (length cs) \<le> depth \<and> list_all ok cs \<and> set cs \<inter> visited = {} \<and>
     successively eight_connected (pos # cs) \<and> last (pos # cs) = goal"

lemma leads_step:
  assumes "leads ok visited goal depth pos cs" "pos \<noteq> goal"
  shows "\<exists>c cs'. eight_connected pos c \<and> ok c \<and> c \<notin> insert pos visited \<and>
     leads ok (insert pos visited) goal (depth - 1) c cs'"
proof -
  from assms have s: "successively eight_connected (pos # cs)" and l: "last (pos # cs) \<noteq> pos"
    by (simp_all add: leads_def)
  from route_step [OF s l] obtain c cs' where r: "eight_connected pos c"
    "set (c # cs') \<subseteq> set cs" "pos \<notin> set (c # cs')" "length cs' < length cs"
    "successively eight_connected (c # cs')" "last (c # cs') = last (pos # cs)" by blast
  from assms(1) have a: "int (length cs) \<le> depth" "\<forall>x \<in> set cs. ok x" "set cs \<inter> visited = {}"
    "last (pos # cs) = goal"
    by (simp_all add: leads_def list_all_iff)
  from r(2) a(2) have "ok c" "list_all ok cs'" by (auto simp add: list_all_iff)
  moreover from r(2,3) a(3) have "c \<notin> insert pos visited" "set cs' \<inter> insert pos visited = {}"
    by auto
  moreover from r(4) a(1) have "int (length cs') \<le> depth - 1" by simp
  ultimately have "leads ok (insert pos visited) goal (depth - 1) c cs'"
    using r(5,6) a(4) by (simp add: leads_def)
  with r(1) \<open>ok c\<close> \<open>c \<notin> insert pos visited\<close> show ?thesis by blast
qed

lemma dls_complete:
  "steady ok s \<and> undisturbed s \<and> (node_pos node = start s \<or> ok (node_pos node)) \<and>
   (\<exists>cs. leads ok visited (target s) depth (node_pos node) cs) \<longrightarrow>
   (\<exists>p. fst (dls_recursive node depth visited path s) = Found p)"
  "steady ok s \<and> undisturbed s \<and>
   (\<exists>nb \<in> set nbs. \<exists>cs. node_pos nb \<notin> visited \<and> ok (node_pos nb) \<and>
      leads ok visited (target s) (depth - 1) (node_pos nb) cs) \<longrightarrow>
   (\<exists>p. fst (dls_neighbors nbs node depth visited path s) = Found p)"
proof (induction node depth visited path s and nbs node depth visited path s
    rule: dls_recursive_dls_neighbors.induct)
  case (1 node depth visited path s)
  let ?s1 = "snd (add_dynamic_obstacle s)"
  let ?pos = "node_pos node"
  show ?case
  proof (intro impI)
    assume a: "steady ok s \<and> undisturbed s \<and> (?pos = start s \<or> ok ?pos) \<and>
      (\<exists>cs. leads ok visited (target s) depth ?pos cs)"
    then have st: "steady ok s" and un: "undisturbed s" by simp_all
    from a obtain cs where cs: "leads ok visited (target s) depth ?pos cs" by blast
    have s1: "?s1 = s" using steadyD(4) [OF st] .
    from cs have "0 \<le> depth" by (simp add: leads_def)
    with un have run: "\<not> (depth < 0 \<or> paused s)" by (simp add: undisturbed_def)
    show "\<exists>p. fst (dls_recursive node depth visited path s) = Found p"
    proof (cases "?pos = target ?s1")
      case True
      then show ?thesis using run by (subst dls_recursive.simps) (simp add: Let_def)
    next
      case False
      let ?s2 = "if ?pos \<noteq> start ?s1
        then set_cell ?s1 (node_x node) (node_y node) EXPLORED else ?s1"
      let ?v1 = "insert ?pos visited"
      have res: "dls_recursive node depth visited path s =
          dls_neighbors (get_neighbors ?s2 node) node depth ?v1 path ?s2"
        using run False by (subst dls_recursive.simps) (simp add: Let_def)
      note ih = "1.IH" [OF run refl refl False refl refl]
      have c2: "config ?s2 = config s" by simp
      have p2: "pending ?s2 = pending s" by simp
      have st2: "steady ok ?s2"
        using a steady_set_cell [OF st, of "node_x node" "node_y node" EXPLORED]
        by (auto simp add: s1 node_pos_def)
      have un2: "undisturbed ?s2" using un undisturbed_cong [OF p2] by simp
      from False s1 have "?pos \<noteq> target s" by simp
      from leads_step [OF cs this] obtain c cs' where r: "eight_connected ?pos c" "ok c"
        "c \<notin> ?v1" "leads ok ?v1 (target s) (depth - 1) c cs'" by blast
      from r(2) steadyD(3) [OF st2, of c] have "is_valid_position ?s2 (fst c) (snd c)"
        by (simp add: passable_def)
      from get_neighbors_complete [OF this r(1)] obtain nb
        where nb: "nb \<in> set (get_neighbors ?s2 node)" "node_pos nb = c" by blast
      have "\<exists>nb \<in> set (get_neighbors ?s2 node). \<exists>cs. node_pos nb \<notin> ?v1 \<and> ok (node_pos nb) \<and>
          leads ok ?v1 (target ?s2) (depth - 1) (node_pos nb) cs"
        using nb r config_eqD [OF c2] by (intro bexI [of _ nb] exI [of _ cs']) simp_all
      with ih st2 un2 show ?thesis unfolding res by blast
    qed
  qed
next
  case (2 node depth visited path s)
  show ?case by simp
next
  case (3 neighbor rest node depth visited path s)
  let ?np = "node_pos neighbor"
  show ?case
  proof (intro impI)
    assume a: "steady ok s \<and> undisturbed s \<and>
      (\<exists>nb \<in> set (neighbor # rest). \<exists>cs. node_pos nb \<notin> visited \<and> ok (node_pos nb) \<and>
         leads ok visited (target s) (depth - 1) (node_pos nb) cs)"
    then have st: "steady ok s" and un: "undisturbed s" by simp_all
    from a obtain nb cs where w: "nb \<in> set (neighbor # rest)" "node_pos nb \<notin> visited"
      "ok (node_pos nb)" "leads ok visited (target s) (depth - 1) (node_pos nb) cs" by blast
    show "\<exists>p. fst (dls_neighbors (neighbor # rest) node depth visited path s) = Found p"
    proof (cases "?np \<notin> visited \<and> is_valid_position s (node_x neighbor) (node_y neighbor)")
      case False
      have res: "dls_neighbors (neighbor # rest) node depth visited path s =
          dls_neighbors rest node depth visited path s"
        using False by (auto simp add: Let_def)
      from w(2,3) steadyD(3) [OF st, of "node_pos nb"] False have "nb \<noteq> neighbor"
        by (auto simp add: passable_def node_pos_def)
      with w have "\<exists>nb \<in> set rest. \<exists>cs. node_pos nb \<notin> visited \<and> ok (node_pos nb) \<and>
         leads ok visited (target s) (depth - 1) (node_pos nb) cs" by auto
      with "3.IH"(3) [OF refl False] st un show ?thesis unfolding res by blast
    next
      case True
      let ?s1 = "if ?np \<noteq> target s
        then set_cell s (node_x neighbor) (node_y neighbor) FRONTIER else s"
      let ?s2 = "draw ?s1"
      obtain okay s3 where ev: "handle_events_during_search ?s2 = (okay, s3)"
        by (cases "handle_events_during_search ?s2") auto
      have s3: "s3 = snd (handle_events_during_search ?s2)" using ev by simp
      have c3: "config s3 = config s" unfolding s3 by simp
      have p1: "pending ?s1 = pending s" by simp
      from True steadyD(3) [OF st, of ?np] have o: "ok (node_x neighbor, node_y neighbor)"
        by (simp add: passable_def node_pos_def)
      then have "steady ok ?s1"
        using st steady_set_cell [OF st o, of FRONTIER] by simp
      then have st3: "steady ok s3" unfolding s3 by (rule steady_events)
      have un1: "undisturbed ?s1" using un undisturbed_cong [OF p1] by simp
      from undisturbed_events [OF un1] ev have okay: okay and un3: "undisturbed s3"
        by simp_all
      then have nn: "\<not> \<not> okay" by simp
      obtain r s4 where rec:
        "dls_recursive neighbor (depth - 1) visited (path @ [node_pos node]) s3 = (r, s4)"
        by (cases "dls_recursive neighbor (depth - 1) visited (path @ [node_pos node]) s3") auto
      note ih1 = "3.IH"(1) [OF refl True refl refl refl ev [symmetric] nn]
      show ?thesis
      proof (cases r)
        case (Found p')
        then show ?thesis using True ev okay rec by (simp add: Let_def)
      next
        case NotFound
        have res: "dls_neighbors (neighbor # rest) node depth visited path s =
            dls_neighbors rest node depth visited path s4"
          using True ev okay rec NotFound by (simp add: Let_def)
        note ih2 = "3.IH"(2) [OF refl True refl refl refl ev [symmetric] nn rec [symmetric] NotFound]
        have s4: "s4 = snd (dls_recursive neighbor (depth - 1) visited (path @ [node_pos node]) s3)"
          using rec by simp
        have c4: "config s4 = config s" unfolding s4 using dls_markers(1) [where k = 0] c3 by simp
        from dls_steady(1) [of ok s3 neighbor "depth - 1" visited "path @ [node_pos node]"]
          rec NotFound st3 o un3
        have st4: "steady ok s4" and un4: "undisturbed s4" by (simp_all add: node_pos_def)
        have "nb \<noteq> neighbor"
        proof
          assume "nb = neighbor"
          with w(4) have "\<exists>cs. leads ok visited (target s3) (depth - 1) ?np cs"
            using config_eqD [OF c3] by auto
          with ih1 st3 un3 o rec NotFound show False by (simp add: node_pos_def)
        qed
        with w have "\<exists>nb \<in> set rest. \<exists>cs. node_pos nb \<notin> visited \<and> ok (node_pos nb) \<and>
           leads ok visited (target s4) (depth - 1) (node_pos nb) cs"
          using config_eqD [OF c4] by auto
        with ih2 st4 un4 show ?thesis unfolding res by blast
      qed
    qed
  qed
qed


section \<open>Claim C5: depth-limited search and its limit\<close>

text \<open>
  A passable route: from the start to the target, over passable cells, each one move
  from the one before. A route of \<open>n\<close> cells takes \<open>n - 1\<close> moves.
\<close>

definition passable_route :: "pathfinder \<Rightarrow> (int \<times> int) list \<Rightarrow> bool" where
  "passable_route s p \<longleftrightarrow>
     p \<noteq> [] \<and> hd p = start s \<and> last p = target s \<and> list_all (passable s) p \<and>
     successively eight_connected p"

text \<open>A corridor of six cells, five moves long, with the obstacle injector switched off.\<close>

definition corridor6 :: pathfinder where
  "corridor6 =
     (initial_state [[START, EMPTY, EMPTY, EMPTY, EMPTY, TARGET]] (0, 0) (0, 5))
       \<lparr>enable_dynamic_obstacles := False\<rparr>"

lemma route_span:
  "successively eight_connected (c # cs) \<Longrightarrow> \<bar>snd (last (c # cs)) - snd c\<bar> \<le> int (length cs)"
proof (induction cs arbitrary: c)
  case Nil
  then show ?case by simp
next
  case (Cons d cs)
  from Cons.prems have e: "eight_connected c d" and r: "successively eight_connected (d # cs)"
    by simp_all
  from Cons.IH [OF r] e show ?case by (auto simp add: eight_connected_def)
qed

text \<open>
  The claim as stated fails: it excludes a pause but not a window close. On the corridor,
  with limit 10, no dynamic obstacles and no pause, the search finds the route of five
  moves; with a window close waiting at the first event check it returns \<open>NotFound\<close>,
  the pause flag still unset.
\<close>

theorem depth_limited_search_window_close_counterexample:
  "\<not> enable_dynamic_obstacles corridor6 \<and>
   passable_route corridor6 [(0, 0), (0, 1), (0, 2), (0, 3), (0, 4), (0, 5)] \<and>
   fst (depth_limited_search corridor6 10) =
     Found [(0, 0), (0, 1), (0, 2), (0, 3), (0, 4), (0, 5)] \<and>
   fst (depth_limited_search (corridor6\<lparr>event_queue := [[QUIT]]\<rparr>) 10) = NotFound \<and>
   paused (snd (depth_limited_search (corridor6\<lparr>event_queue := [[QUIT]]\<rparr>) 10)) = False"
  by code_simp

text \<open>
  Claim C5, amended. Depth-limited search with limit \<open>d\<close>, on a well-formed grid with
  the obstacle injector switched off and a passable start cell. If every passable route
  takes more than \<open>d\<close> moves, the search returns \<open>NotFound\<close>, whatever the events. If
  some passable route takes at most \<open>d\<close> moves, no pause is set and no batch of events
  holds a space key or a window close, the search returns \<open>Found\<close> with a passable
  route of at most \<open>d\<close> moves. The visited set handed down is the caller's, so a
  position closed in one branch is open again in the next: the search tries every route
  that does not cross itself.
\<close>

theorem depth_limited_search_within_limit:
  assumes "wf_grid s" and "\<not> enable_dynamic_obstacles s" and "passable s (start s)"
  shows "((\<forall>p. passable_route s p \<longrightarrow> d < int (length p) - 1) \<longrightarrow>
            fst (depth_limited_search s d) = NotFound) \<and>
         (undisturbed s \<and> (\<exists>p. passable_route s p \<and> int (length p) - 1 \<le> d) \<longrightarrow>
            (\<exists>p. fst (depth_limited_search s d) = Found p \<and> passable_route s p \<and>
               int (length p) - 1 \<le> d))"
proof -
  let ?n = "Node (fst (start s)) (snd (start s)) 0 None"
  have st: "steady (passable s) s" using assms(1,2) by (simp add: steady_def)
  have pos: "node_pos ?n = start s" by (simp add: node_pos_def)
  have sound: "passable_route s p \<and> int (length p) - 1 \<le> d"
    if f: "fst (depth_limited_search s d) = Found p" for p
  proof -
    from dls_sound(1) [of "passable s" s ?n d "{}" "[]" p] st f pos
    obtain cs where cs: "p = start s # cs" "int (length cs) \<le> d" "list_all (passable s) cs"
      "successively eight_connected (start s # cs)" "last (start s # cs) = target s"
      by (auto simp add: depth_limited_search_def)
    with assms(3) show ?thesis by (simp add: passable_route_def)
  qed
  have "fst (depth_limited_search s d) = NotFound"
    if a: "\<forall>p. passable_route s p \<longrightarrow> d < int (length p) - 1"
  proof (cases "fst (depth_limited_search s d)")
    case (Found p)
    with sound [OF Found] a show ?thesis by fastforce
  next
    case NotFound
    then show ?thesis .
  qed
  moreover have "\<exists>p. fst (depth_limited_search s d) = Found p \<and> passable_route s p \<and>
      int (length p) - 1 \<le> d"
    if a: "undisturbed s \<and> (\<exists>p. passable_route s p \<and> int (length p) - 1 \<le> d)"
  proof -
    from a obtain p where p: "passable_route s p" "int (length p) - 1 \<le> d" by blast
    then obtain cs where cs: "p = start s # cs"
      by (cases p) (auto simp add: passable_route_def)
    from p cs have "leads (passable s) {} (target s) d (node_pos ?n) cs"
      by (simp add: leads_def passable_route_def pos)
    with dls_complete(1) [of "passable s" s ?n "{}" d "[]"] st a pos
    obtain p' where "fst (depth_limited_search s d) = Found p'"
      by (auto simp add: depth_limited_search_def)
    with sound [OF this] show ?thesis by blast
  qed
  ultimately show ?thesis by blast
qed

theorem depth_limited_search_within_limit_witness:
  "fst (depth_limited_search corridor6 2) = NotFound \<and>
   (\<exists>p. fst (depth_limited_search corridor6 10) = Found p \<and> passable_route corridor6 p \<and>
      int (length p) - 1 \<le> 10)"
proof -
  have h: "wf_grid corridor6" "\<not> enable_dynamic_obstacles corridor6"
    "passable corridor6 (start corridor6)"
    by code_simp+
  have e: "start corridor6 = (0, 0)" "target corridor6 = (0, 5)" by code_simp+
  have far: "\<forall>p. passable_route corridor6 p \<longrightarrow> 2 < int (length p) - 1"
  proof (intro allI impI)
    fix p
    assume "passable_route corridor6 p"
    then obtain c cs where p: "p = c # cs" and r: "c = (0, 0)" "last (c # cs) = (0, 5)"
      "successively eight_connected (c # cs)"
      by (cases p) (auto simp add: passable_route_def e)
    from route_span [OF r(3)] r(1,2) show "2 < int (length p) - 1" by (simp add: p)
  qed
  have u: "undisturbed corridor6" by code_simp
  have "passable_route corridor6 [(0, 0), (0, 1), (0, 2), (0, 3), (0, 4), (0, 5)]"
    by code_simp
  then have near: "\<exists>p. passable_route corridor6 p \<and> int (length p) - 1 \<le> 10"
    by (intro exI [of _ "[(0, 0), (0, 1), (0, 2), (0, 3), (0, 4), (0, 5)]"]) simp
  from depth_limited_search_within_limit [OF h, of 2] far
  have "fst (depth_limited_search corridor6 2) = NotFound" by blast
  moreover from depth_limited_search_within_limit [OF h, of 10] u near
  have "\<exists>p. fst (depth_limited_search corridor6 10) = Found p \<and> passable_route corridor6 p \<and>
      int (length p) - 1 \<le> 10" by blast
  ultimately show ?thesis by blast
qed

end
